theory Spec2Isabelle
  imports Main "HOL-Library.Code_Target_Nat"
begin

section \<open>Buffers, characters and the regular expressions of the sources\<close>

text \<open>
  Every source file turns a Node \<^verbatim>\<open>Buffer\<close> into a string with
  \<^verbatim>\<open>toString('binary')\<close> and back with \<^verbatim>\<open>Buffer.from(_, 'binary')\<close>.
  That encoding maps byte \<open>n\<close> to the character with code \<open>n\<close>, so a buffer and its
  binary string are the same list of 8-bit characters: both are a \<^typ>\<open>string\<close> here.
\<close>

type_synonym buffer = string

definition backslash :: char where "backslash = CHR 0x5C"
definition newline :: char where "newline = CHR 0x0A"
definition carriage_return :: char where "carriage_return = CHR 0x0D"
definition tab :: char where "tab = CHR 0x09"

text \<open>
  The character classes \<^verbatim>\<open>\s\<close> and \<^verbatim>\<open>\d\<close> of JavaScript, on characters below 256:
  \<^verbatim>\<open>\s\<close> is TAB, LF, VT, FF, CR, SPACE and NBSP.
\<close>

definition is_space :: "char \<Rightarrow> bool" where
  "is_space c = (c \<in> set [CHR 0x09, CHR 0x0A, CHR 0x0B, CHR 0x0C, CHR 0x0D, CHR 0x20, CHR 0xA0])"

definition is_digit :: "char \<Rightarrow> bool" where
  "is_digit c = (c \<in> set ''0123456789'')"

definition is_hex :: "char \<Rightarrow> bool" where
  "is_hex c = (c \<in> set ''0123456789abcdefABCDEF'')"

text \<open>
  Under the \<^verbatim>\<open>i\<close> flag (without \<^verbatim>\<open>u\<close>) two characters match when their upper-case
  forms agree; for a pattern letter in \<^verbatim>\<open>A-Za-z\<close> and a subject character below 256
  that is the ASCII case folding.
\<close>

definition lower :: "char \<Rightarrow> char" where
  "lower c = (case map_of (zip ''ABCDEFGHIJKLMNOPQRSTUVWXYZ'' ''abcdefghijklmnopqrstuvwxyz'') c of
                Some d \<Rightarrow> d | None \<Rightarrow> c)"

text \<open>
  The regular expressions of the sources are sequences of single-character atoms, each
  taken once or under \<^verbatim>\<open>*\<close>, \<^verbatim>\<open>+\<close> or the lazy \<^verbatim>\<open>*?\<close>, with capture parentheses.
  \<open>Mark\<close> stands for a parenthesis: it records the input position.
\<close>

datatype item =
    One "char \<Rightarrow> bool"
  | Star "char \<Rightarrow> bool"
  | Plus "char \<Rightarrow> bool"
  | Lazy "char \<Rightarrow> bool"
  | Mark

type_synonym regex = "item list"

definition lit :: "char \<Rightarrow> item" where
  "lit c = One (\<lambda>x. x = c)"

definition lit_i :: "char \<Rightarrow> item" where
  "lit_i c = One (\<lambda>x. lower x = lower c)"

definition str :: "string \<Rightarrow> regex" where
  "str s = map lit s"

definition str_i :: "string \<Rightarrow> regex" where
  "str_i s = map lit_i s"

text \<open>
  The backtracking matcher, anchored at the head of the input. A greedy quantifier first
  takes one more character and gives it back when the rest of the pattern fails; the lazy
  one first tries the rest of the pattern. The result is the input left after the match
  and the inputs left at each \<open>Mark\<close>, in pattern order.
\<close>

fun rx_match :: "regex \<Rightarrow> string \<Rightarrow> (string list \<times> string) option" where
  "rx_match [] s = Some ([], s)"
| "rx_match (Mark # r) s =
     (case rx_match r s of None \<Rightarrow> None | Some (ms, t) \<Rightarrow> Some (s # ms, t))"
| "rx_match (One p # r) [] = None"
| "rx_match (One p # r) (c # cs) = (if p c then rx_match r cs else None)"
| "rx_match (Star p # r) [] = rx_match r []"
| "rx_match (Star p # r) (c # cs) =
     (if p c
      then (case rx_match (Star p # r) cs of
              Some m \<Rightarrow> Some m
            | None \<Rightarrow> rx_match r (c # cs))
      else rx_match r (c # cs))"
| "rx_match (Plus p # r) [] = None"
| "rx_match (Plus p # r) (c # cs) = (if p c then rx_match (Star p # r) cs else None)"
| "rx_match (Lazy p # r) [] = rx_match r []"
| "rx_match (Lazy p # r) (c # cs) =
     (case rx_match r (c # cs) of
        Some m \<Rightarrow> Some m
      | None \<Rightarrow> (if p c then rx_match (Lazy p # r) cs else None))"

text \<open>
  \<^verbatim>\<open>regex.exec(s)\<close>: the leftmost position where the pattern matches. The result is
  the input from the start of the match, the marks, and the input after the match.
\<close>

fun rx_exec :: "regex \<Rightarrow> string \<Rightarrow> (string \<times> string list \<times> string) option" where
  "rx_exec r [] = (case rx_match r [] of None \<Rightarrow> None | Some (ms, t) \<Rightarrow> Some ([], ms, t))"
| "rx_exec r (c # cs) =
     (case rx_match r (c # cs) of
        Some (ms, t) \<Rightarrow> Some (c # cs, ms, t)
      | None \<Rightarrow> rx_exec r cs)"

definition rx_test :: "regex \<Rightarrow> string \<Rightarrow> bool" where
  "rx_test r s = (rx_exec r s \<noteq> None)"

text \<open>The text between two recorded positions \<open>a\<close> (earlier) and \<open>b\<close> (later).\<close>

definition between :: "string \<Rightarrow> string \<Rightarrow> string" where
  "between a b = take (length a - length b) a"

text \<open>
  \<^verbatim>\<open>s.replace(/r/g, f)\<close>: scan from the left; where the pattern matches, emit the
  replacement of the matched text and go on after the match, otherwise copy one character.
  After an empty match JavaScript copies one character before it searches again.
\<close>

function rx_replace_all :: "regex \<Rightarrow> (string \<Rightarrow> string) \<Rightarrow> string \<Rightarrow> string" where
  "rx_replace_all r f s =
     (case rx_match r s of
        Some (ms, t) \<Rightarrow>
          (if length t < length s then f (between s t) @ rx_replace_all r f t
           else f [] @ (case s of [] \<Rightarrow> [] | c # cs \<Rightarrow> c # rx_replace_all r f cs))
      | None \<Rightarrow> (case s of [] \<Rightarrow> [] | c # cs \<Rightarrow> c # rx_replace_all r f cs))"
  by pat_completeness auto
termination
  by (relation "measure (\<lambda>(r, f, s). length s)") auto

declare rx_replace_all.simps [simp del]

text \<open>\<^verbatim>\<open>s.match(/r/g)\<close>: the matched texts, leftmost first, not overlapping.\<close>

function rx_match_all :: "regex \<Rightarrow> string \<Rightarrow> string list" where
  "rx_match_all r s =
     (case rx_exec r s of
        None \<Rightarrow> []
      | Some (a, ms, t) \<Rightarrow>
          between a t #
            (if length t < length s then rx_match_all r t
             else (case t of [] \<Rightarrow> [] | c # cs \<Rightarrow> if length cs < length s then rx_match_all r cs else [])))"
  by pat_completeness auto
termination
  by (relation "measure (\<lambda>(r, s). length s)") auto

declare rx_match_all.simps [simp del]

section \<open>The signature detector (\<^verbatim>\<open>checkPdfSignature\<close>)\<close>

text \<open>
  \<^verbatim>\<open>/\/Type\s*\/Sig|\/FT\s*\/Sig|\/SubFilter\s*\/adbe\.pkcs7/i.test(pdfText)\<close>:
  the three alternatives, each searched in the whole text.
\<close>

definition sig_type_rx :: regex where
  "sig_type_rx = str_i ''/Type'' @ [Star is_space] @ str_i ''/Sig''"

definition sig_ft_rx :: regex where
  "sig_ft_rx = str_i ''/FT'' @ [Star is_space] @ str_i ''/Sig''"

definition sig_subfilter_rx :: regex where
  "sig_subfilter_rx = str_i ''/SubFilter'' @ [Star is_space] @ str_i ''/adbe.pkcs7''"

definition hasSig :: "buffer \<Rightarrow> bool" where
  "hasSig pdfText =
     (rx_test sig_type_rx pdfText \<or> rx_test sig_ft_rx pdfText \<or> rx_test sig_subfilter_rx pdfText)"


text \<open>
  The long-term-validation markers:
  \<^verbatim>\<open>/\/DSS\s+\d+\s+0\s+R/i\<close>, \<^verbatim>\<open>/\/Type\s*\/DSS/i\<close>, \<^verbatim>\<open>/\/Type\s*\/VRI/i\<close>, the header
  test \<^verbatim>\<open>/\/Filter\s*\/FlateDecode/i\<close>, and the test
  \<^verbatim>\<open>/\/Type\s*\/DSS|\/DSS\s+\d+\s+0\s+R/i\<close> applied to stream contents.
\<close>

definition dss_ref_rx :: regex where
  "dss_ref_rx =
     str_i ''/DSS'' @ [Plus is_space, Plus is_digit, Plus is_space, lit_i CHR ''0'', Plus is_space,
       lit_i CHR ''R'']"

definition type_dss_rx :: regex where
  "type_dss_rx = str_i ''/Type'' @ [Star is_space] @ str_i ''/DSS''"

definition type_vri_rx :: regex where
  "type_vri_rx = str_i ''/Type'' @ [Star is_space] @ str_i ''/VRI''"

definition flate_rx :: regex where
  "flate_rx = str_i ''/Filter'' @ [Star is_space] @ str_i ''/FlateDecode''"

definition dss_marker :: "string \<Rightarrow> bool" where
  "dss_marker s = (rx_test type_dss_rx s \<or> rx_test dss_ref_rx s)"

text \<open>
  \<^verbatim>\<open>/(\d+\s+0\s+obj\s*<<[^>]*>>)\s*stream\s*\n([\s\S]*?)\s*endstream/g\<close>.
  The four marks are the two ends of the object header (group 1) and the two ends of the
  stream content (group 2).
\<close>

definition stream_rx :: regex where
  "stream_rx =
     [Mark, Plus is_digit, Plus is_space, lit CHR ''0'', Plus is_space] @ str ''obj'' @
     [Star is_space] @ str ''<<'' @ [Star (\<lambda>c. c \<noteq> CHR ''>'')] @ str ''>>'' @
     [Mark, Star is_space] @ str ''stream'' @ [Star is_space, lit newline,
      Mark, Lazy (\<lambda>c. True), Mark, Star is_space] @ str ''endstream''"

text \<open>
  What one turn of the loop decides for a stream with header \<open>objHeader\<close> and content
  \<open>streamContent\<close>. \<open>inflate\<close> is \<^verbatim>\<open>zlib.inflateSync\<close>, \<open>None\<close> when it throws (the
  exception is caught and the stream skipped).
\<close>

definition stream_hit :: "(string \<Rightarrow> string option) \<Rightarrow> string \<times> string \<Rightarrow> bool" where
  "stream_hit inflate hc =
     (case hc of (objHeader, streamContent) \<Rightarrow>
        if rx_test flate_rx objHeader
        then (case inflate streamContent of
                Some decompressedText \<Rightarrow> dss_marker decompressedText
              | None \<Rightarrow> False)
        else dss_marker streamContent)"

text \<open>
  The loop \<^verbatim>\<open>while ((match = streamRegex.exec(pdfText)) !== null && streamCount < 50)\<close>.
  The global pattern resumes where the last match ended, so each turn searches the rest
  of the text. The result is the value of \<^verbatim>\<open>hasLTV\<close> after the loop.
\<close>

function scan_streams :: "(string \<Rightarrow> string option) \<Rightarrow> nat \<Rightarrow> string \<Rightarrow> bool" where
  "scan_streams inflate streamCount s =
     (case rx_exec stream_rx s of
        None \<Rightarrow> False
      | Some (a, ms, t) \<Rightarrow>
          if streamCount < 50
          then (if stream_hit inflate (between (ms ! 0) (ms ! 1), between (ms ! 2) (ms ! 3))
                then True
                else scan_streams inflate (streamCount + 1) t)
          else False)"
  by pat_completeness auto
termination
  by (relation "measure (\<lambda>(inflate, streamCount, s). 50 - streamCount)") auto

declare scan_streams.simps [simp del]

definition hasLTV :: "(string \<Rightarrow> string option) \<Rightarrow> buffer \<Rightarrow> bool" where
  "hasLTV inflate pdfText =
     (let h1 = rx_test dss_ref_rx pdfText;
          h2 = (if \<not> h1 \<and> rx_test type_dss_rx pdfText then True else h1);
          h3 = (if \<not> h2 then scan_streams inflate 0 pdfText else h2);
          h4 = (if \<not> h3 \<and> rx_test type_vri_rx pdfText then True else h3)
      in h4)"

text \<open>
  The two detection fields of the result of \<^verbatim>\<open>checkPdfSignature\<close>: \<^verbatim>\<open>{hasSig: false}\<close>
  or \<^verbatim>\<open>{hasSig: true, hasLTV, ...}\<close>.
\<close>

datatype detection = Unsigned | Signed bool

definition checkPdfSignature :: "(string \<Rightarrow> string option) \<Rightarrow> buffer \<Rightarrow> detection" where
  "checkPdfSignature inflate pdfBuffer =
     (if \<not> hasSig pdfBuffer then Unsigned else Signed (hasLTV inflate pdfBuffer))"

text \<open>
  The stream objects of a text, in order: header and content of each successive match of
  the stream pattern. This is the list the loop walks through.
\<close>

function stream_objects :: "string \<Rightarrow> (string \<times> string) list" where
  "stream_objects s =
     (case rx_exec stream_rx s of
        None \<Rightarrow> []
      | Some (a, ms, t) \<Rightarrow>
          (between (ms ! 0) (ms ! 1), between (ms ! 2) (ms ! 3)) #
            (if length t < length s then stream_objects t else []))"
  by pat_completeness auto
termination
  by (relation "measure length") auto

declare stream_objects.simps [simp del]

text \<open>
  \<^verbatim>\<open>decodePdfString\<close>: seven global replacements, one after the other, each on the
  result of the one before. The octal pattern is \<^verbatim>\<open>/\\([0-3][0-7]{2})/g\<close>; its group is
  the match without the backslash.
\<close>

definition is_octal :: "char \<Rightarrow> bool" where
  "is_octal c = (c \<in> set ''01234567'')"

definition digit_val :: "char \<Rightarrow> nat" where
  "digit_val c = of_char c - 48"

definition parseInt_radix :: "nat \<Rightarrow> string \<Rightarrow> nat" where
  "parseInt_radix radix ds = fold (\<lambda>d n. radix * n + digit_val d) ds 0"

definition octal_rx :: regex where
  "octal_rx = [lit backslash, One (\<lambda>c. c \<in> set ''0123''), One is_octal, One is_octal]"

definition decodePdfString :: "string \<Rightarrow> string" where
  "decodePdfString s =
     (if s = [] then []
      else
        rx_replace_all [lit backslash, lit CHR ''t''] (\<lambda>m. [tab])
       (rx_replace_all [lit backslash, lit CHR ''r''] (\<lambda>m. [carriage_return])
       (rx_replace_all [lit backslash, lit CHR ''n''] (\<lambda>m. [newline])
       (rx_replace_all [lit backslash, lit backslash] (\<lambda>m. [backslash])
       (rx_replace_all [lit backslash, lit CHR '')''] (\<lambda>m. '')'')
       (rx_replace_all [lit backslash, lit CHR ''(''] (\<lambda>m. ''('')
       (rx_replace_all octal_rx (\<lambda>m. [char_of (parseInt_radix 8 (drop 1 m))]) s)))))))"

section \<open>Numbers, encodings and the library\<close>

text \<open>
  A JavaScript number is a double. The numbers of the sources that matter here are
  counts and object numbers: integers from zero up, or \<^verbatim>\<open>Infinity\<close>. \<open>Fin n\<close> is the
  double whose value is the integer \<open>n\<close>.
\<close>

datatype jsnum = Fin nat | Infinity

fun bitlen :: "nat \<Rightarrow> nat" where
  "bitlen n = (if n = 0 then 0 else Suc (bitlen (n div 2)))"

declare bitlen.simps [simp del]

text \<open>
  The double nearest to an integer, ties to the even significand: every integer below
  \<open>2 ^ 53\<close> is a double; above, a double has 53 significant bits, and from
  \<open>2 ^ 1024\<close> the result is \<^verbatim>\<open>Infinity\<close>.
\<close>

definition double_of_nat :: "nat \<Rightarrow> jsnum" where
  "double_of_nat n =
     (if n < 2 ^ 53 then Fin n
      else
        let e = bitlen n - 53;
            q = n div 2 ^ e;
            r = n mod 2 ^ e;
            h = 2 ^ (e - 1);
            q' = (if h < r \<or> (r = h \<and> odd q) then q + 1 else q);
            v = q' * 2 ^ e
        in if 2 ^ 1024 \<le> v then Infinity else Fin v)"

text \<open>\<^verbatim>\<open>x + 1\<close> and \<^verbatim>\<open>x++\<close>: the exact sum, rounded to a double.\<close>

definition js_succ :: "jsnum \<Rightarrow> jsnum" where
  "js_succ x = (case x of Fin n \<Rightarrow> double_of_nat (n + 1) | Infinity \<Rightarrow> Infinity)"

definition js_max :: "jsnum \<Rightarrow> jsnum \<Rightarrow> jsnum" where
  "js_max x y =
     (case x of Infinity \<Rightarrow> Infinity
      | Fin m \<Rightarrow> (case y of Infinity \<Rightarrow> Infinity | Fin n \<Rightarrow> Fin (max m n)))"

text \<open>A number in a condition: zero is false, every other number here is true.\<close>

definition js_truthy :: "jsnum \<Rightarrow> bool" where
  "js_truthy x = (x \<noteq> Fin 0)"

definition digit_char :: "nat \<Rightarrow> char" where
  "digit_char n = ''0123456789'' ! n"

fun dec :: "nat \<Rightarrow> string" where
  "dec n = (if n < 10 then [digit_char n] else dec (n div 10) @ [digit_char (n mod 10)])"

declare dec.simps [simp del]

text \<open>\<^verbatim>\<open>parseInt\<close> of a string of decimal digits.\<close>

definition parseInt :: "string \<Rightarrow> jsnum" where
  "parseInt ds = double_of_nat (parseInt_radix 10 ds)"

text \<open>
  ASN.1 values as the \<^verbatim>\<open>node-forge\<close> library holds them: a tag class, a type, and
  either a byte string (primitive) or a list of values (constructed).
\<close>

datatype asn1 =
    Primitive nat nat string
  | Constructed nat nat "asn1 list"

definition UNIVERSAL :: nat where "UNIVERSAL = 0"
definition CONTEXT_SPECIFIC :: nat where "CONTEXT_SPECIFIC = 128"
definition BOOLEAN :: nat where "BOOLEAN = 1"
definition INTEGER :: nat where "INTEGER = 2"
definition OCTETSTRING :: nat where "OCTETSTRING = 4"
definition OID :: nat where "OID = 6"
definition SEQUENCE :: nat where "SEQUENCE = 16"
definition SET :: nat where "SET = 17"
definition IA5STRING :: nat where "IA5STRING = 22"

text \<open>
  An X.509 certificate as the sources read it: the common names of subject and issuer
  (\<^verbatim>\<open>getField('CN')?.value\<close>), the extensions with their object identifier and value, and
  the serial number.
\<close>

record certificate =
  subject_CN :: "string option"
  subject_emailAddress :: "string option"
  subject_O :: "string option"
  issuer_CN :: "string option"
  notBefore :: string
  notAfter :: string
  extensions :: "(string \<times> string) list"
  serialNumber :: string

text \<open>
  A decrypted PKCS#12 container: the certificates of its certificate bags, in the order of
  the container, and the private key. A bag is taken to hold an X.509 certificate.
\<close>

record pkcs12 =
  certBags :: "certificate list"
  privateKey :: string

text \<open>
  What the sources take from Node and its libraries, as parameters of the model. A
  result \<open>None\<close> stands for a thrown exception.
  \<^item> \<open>argLimit\<close>: how many arguments the engine lets a spread call
    \<^verbatim>\<open>Math.max(...numbers)\<close> pass before it throws a \<^verbatim>\<open>RangeError\<close>;
  \<^item> \<open>bigString\<close>: the string of a number from \<open>2 ^ 53\<close> up (below, it is the decimal
    digits);
  \<^item> \<open>base64\<close>, \<open>sha1\<close>, \<open>sha256\<close>, \<open>inflateSync\<close>: \<^verbatim>\<open>Buffer\<close>, \<^verbatim>\<open>crypto\<close> and \<^verbatim>\<open>zlib\<close>;
  \<^item> \<open>fromDer\<close>, \<open>toDer\<close>, \<open>derToOid\<close>, \<open>derToInteger\<close>, \<open>oidToDer\<close>, \<open>integerToDer\<close>,
    \<open>hexToBytes\<close>: \<^verbatim>\<open>forge.asn1\<close> and \<^verbatim>\<open>forge.util\<close>;
  \<^item> \<open>certificateToDer\<close>, \<open>issuerToDer\<close>, \<open>publicKeyToDer\<close>: the DER encodings
    \<^verbatim>\<open>toDer(certificateToAsn1(cert))\<close>, \<^verbatim>\<open>toDer(cert.issuer)\<close> and
    \<^verbatim>\<open>toDer(cert.publicKey)\<close>;
  \<^item> \<open>derError\<close>: the message of the error \<open>fromDer\<close> throws; \<open>pkcs12FromAsn1\<close>:
    \<^verbatim>\<open>forge.pkcs12.pkcs12FromAsn1(asn1, false, password)\<close>, \<open>Inl\<close> the message of the
    error it throws (a wrong password among them);
  \<^item> \<open>flatten\<close>: loading and saving the document with \<^verbatim>\<open>pdf-lib\<close>;
    \<open>plainAddPlaceholder\<close> (with reason, location and signature length) and \<open>sign\<close>
    (with the container and the passphrase): \<^verbatim>\<open>node-signpdf\<close>, \<open>Inl\<close> the message of a
    thrown error.
\<close>

record runtime =
  argLimit :: nat
  bigString :: "jsnum \<Rightarrow> string"
  base64 :: "buffer \<Rightarrow> string"
  sha1 :: "buffer \<Rightarrow> buffer"
  sha256 :: "buffer \<Rightarrow> buffer"
  inflateSync :: "buffer \<Rightarrow> buffer option"
  fromDer :: "buffer \<Rightarrow> asn1 option"
  toDer :: "asn1 \<Rightarrow> buffer option"
  derToOid :: "string \<Rightarrow> string"
  derToInteger :: "string \<Rightarrow> int option"
  oidToDer :: "string \<Rightarrow> string"
  integerToDer :: "int \<Rightarrow> string"
  hexToBytes :: "string \<Rightarrow> string"
  certificateToDer :: "certificate \<Rightarrow> buffer option"
  issuerToDer :: "certificate \<Rightarrow> buffer option"
  publicKeyToDer :: "certificate \<Rightarrow> buffer option"
  derError :: "buffer \<Rightarrow> string"
  pkcs12FromAsn1 :: "asn1 \<Rightarrow> string \<Rightarrow> string + pkcs12"
  flatten :: "buffer \<Rightarrow> buffer option"
  plainAddPlaceholder :: "buffer \<Rightarrow> string \<Rightarrow> string \<Rightarrow> nat \<Rightarrow> string + buffer"
  sign :: "buffer \<Rightarrow> buffer \<Rightarrow> string \<Rightarrow> string + buffer"

text \<open>The string of a number in a template literal.\<close>

definition String_of :: "runtime \<Rightarrow> jsnum \<Rightarrow> string" where
  "String_of R x =
     (case x of
        Fin n \<Rightarrow> if n < 2 ^ 53 then dec n else bigString R x
      | Infinity \<Rightarrow> ''Infinity'')"

text \<open>
  The network. A request is a URL and a body; \<^verbatim>\<open>axios.post\<close> either rejects (timeout,
  transport failure, a status outside 2xx) or resolves with a status and a body. What a
  server answers may depend on the requests made before, so the network is a function of
  the requests so far, and every function that uses it passes the log of requests on.
\<close>

datatype http_result = Rejected string | Response nat buffer

type_synonym request = "string \<times> buffer"
type_synonym network = "request list \<Rightarrow> request \<Rightarrow> http_result"

definition post :: "network \<Rightarrow> string \<Rightarrow> buffer \<Rightarrow> request list \<Rightarrow> http_result \<times> request list" where
  "post net url body log = (net log (url, body), log @ [(url, body)])"

text \<open>\<^verbatim>\<open>buffer.toString('hex')\<close> and \<^verbatim>\<open>Buffer.from(s, 'hex')\<close>.\<close>

definition hex_char :: "nat \<Rightarrow> char" where
  "hex_char n = ''0123456789abcdef'' ! n"

definition hex_of_byte :: "char \<Rightarrow> string" where
  "hex_of_byte c = [hex_char (of_char c div 16), hex_char (of_char c mod 16)]"

definition toString_hex :: "buffer \<Rightarrow> string" where
  "toString_hex b = concat (map hex_of_byte b)"

definition hex_val :: "char \<Rightarrow> nat" where
  "hex_val c =
     (if c \<in> set ''0123456789'' then of_char c - 48
      else if c \<in> set ''abcdef'' then of_char c - 87
      else of_char c - 55)"

fun from_hex :: "string \<Rightarrow> buffer" where
  "from_hex (a # b # r) =
     (if is_hex a \<and> is_hex b then char_of (16 * hex_val a + hex_val b) # from_hex r else [])"
| "from_hex r = []"

text \<open>\<^verbatim>\<open>s.padEnd(n, '0')\<close>, and \<^verbatim>\<open>s.replace(pat, rep)\<close> for a string \<open>pat\<close> and a
  replacement without \<^verbatim>\<open>$\<close>: the first occurrence is replaced.\<close>

definition padEnd :: "string \<Rightarrow> nat \<Rightarrow> char \<Rightarrow> string" where
  "padEnd s n c = s @ replicate (n - length s) c"

fun replace_first :: "string \<Rightarrow> string \<Rightarrow> string \<Rightarrow> string" where
  "replace_first pat rep [] = (if pat = [] then rep else [])"
| "replace_first pat rep (c # cs) =
     (if take (length pat) (c # cs) = pat then rep @ drop (length pat) (c # cs)
      else c # replace_first pat rep cs)"

text \<open>\<^verbatim>\<open>s.replace(/r/, rep)\<close> without the \<^verbatim>\<open>g\<close> flag: the leftmost match is replaced.\<close>

definition rx_replace_first :: "regex \<Rightarrow> string \<Rightarrow> string \<Rightarrow> string" where
  "rx_replace_first r rep s =
     (case rx_exec r s of
        None \<Rightarrow> s
      | Some (a, ms, t) \<Rightarrow> take (length s - length a) s @ rep @ t)"

text \<open>\<^verbatim>\<open>s.lastIndexOf(pat)\<close>, \<open>None\<close> for \<open>-1\<close>.\<close>

fun lastIndexOf :: "string \<Rightarrow> string \<Rightarrow> nat option" where
  "lastIndexOf pat [] = (if pat = [] then Some 0 else None)"
| "lastIndexOf pat (c # cs) =
     (case lastIndexOf pat cs of
        Some i \<Rightarrow> Some (Suc i)
      | None \<Rightarrow> if take (length pat) (c # cs) = pat then Some 0 else None)"

section \<open>The timestamp helper (\<^verbatim>\<open>tsa-helper\<close>)\<close>

text \<open>
  \<^verbatim>\<open>extractSignatureFromPDF\<close>, with the patterns
  \<^verbatim>\<open>/\/ByteRange\s*\[\s*(\d+)\s+(\d+)\s+(\d+)\s+(\d+)\s*\]/\<close> and
  \<^verbatim>\<open>/\/Contents\s*<([0-9a-fA-F]+)>/\<close>.
\<close>

definition byteRange_rx :: regex where
  "byteRange_rx =
     str ''/ByteRange'' @ [Star is_space, lit CHR ''['', Star is_space,
       Mark, Plus is_digit, Mark, Plus is_space,
       Mark, Plus is_digit, Mark, Plus is_space,
       Mark, Plus is_digit, Mark, Plus is_space,
       Mark, Plus is_digit, Mark, Star is_space, lit CHR '']'']"

definition contents_rx :: regex where
  "contents_rx = str ''/Contents'' @ [Star is_space, lit CHR ''<'', Mark, Plus is_hex, Mark, lit CHR ''>'']"

record extracted =
  signature :: buffer
  byteRange :: "jsnum list"
  signatureHex :: string

definition extractSignatureFromPDF :: "buffer \<Rightarrow> extracted option" where
  "extractSignatureFromPDF pdfBuffer =
     (case rx_exec byteRange_rx pdfBuffer of
        None \<Rightarrow> None
      | Some (a, bs, t) \<Rightarrow>
          (case rx_exec contents_rx pdfBuffer of
             None \<Rightarrow> None
           | Some (a', cs, t') \<Rightarrow>
               Some \<lparr>signature = from_hex (between (cs ! 0) (cs ! 1)),
                     byteRange = [parseInt (between (bs ! 0) (bs ! 1)), parseInt (between (bs ! 2) (bs ! 3)),
                                  parseInt (between (bs ! 4) (bs ! 5)), parseInt (between (bs ! 6) (bs ! 7))],
                     signatureHex = between (cs ! 0) (cs ! 1)\<rparr>))"

text \<open>
  \<^verbatim>\<open>replaceSignatureInPDF\<close> of the timestamp helper: a new signature longer than the
  old hexadecimal text is refused and the buffer returned as it is.
\<close>

definition replaceSignatureInPDF :: "buffer \<Rightarrow> string \<Rightarrow> buffer \<Rightarrow> buffer" where
  "replaceSignatureInPDF pdfBuffer oldSignatureHex newSignature =
     (let newSignatureHex = toString_hex newSignature in
      if length oldSignatureHex < length newSignatureHex then pdfBuffer
      else
        let paddedHex = padEnd newSignatureHex (length oldSignatureHex) CHR ''0'' in
        replace_first (''/Contents <'' @ oldSignatureHex @ ''>'') (''/Contents <'' @ paddedHex @ ''>'')
          pdfBuffer)"

text \<open>
  \<^verbatim>\<open>replaceSignatureInPDF\<close> as the serverless signing function has it inline: the
  same replacement without the length test.
\<close>

definition replaceSignatureInPDF_inline :: "buffer \<Rightarrow> string \<Rightarrow> buffer \<Rightarrow> buffer" where
  "replaceSignatureInPDF_inline pdfBuffer oldSignatureHex newSignature =
     (let newHex = padEnd (toString_hex newSignature) (length oldSignatureHex) CHR ''0'' in
      replace_first (''/Contents <'' @ oldSignatureHex @ ''>'') (''/Contents <'' @ newHex @ ''>'')
        pdfBuffer)"

text \<open>
  The request of \<^verbatim>\<open>requestTimestamp\<close>: the DER encoding of
  \<^verbatim>\<open>TimeStampReq\<close> with version 1, the SHA-256 imprint of the data and \<^verbatim>\<open>certReq\<close> true.
\<close>

definition timestampReq :: "runtime \<Rightarrow> buffer \<Rightarrow> asn1" where
  "timestampReq R dataToTimestamp =
     Constructed UNIVERSAL SEQUENCE
       [Primitive UNIVERSAL INTEGER (integerToDer R 1),
        Constructed UNIVERSAL SEQUENCE
          [Constructed UNIVERSAL SEQUENCE
             [Primitive UNIVERSAL OID (oidToDer R ''2.16.840.1.101.3.4.2.1'')],
           Primitive UNIVERSAL OCTETSTRING (sha256 R dataToTimestamp)],
        Primitive UNIVERSAL BOOLEAN [CHR 0xFF]]"

text \<open>
  The inner \<^verbatim>\<open>try\<close> of \<^verbatim>\<open>requestTimestamp\<close>, which reads the token out of the response.
  Whatever goes wrong there (the response is no DER, it has no elements, its status is
  not zero, it has no second element, the token cannot be encoded) is caught, and the
  raw response is returned in place of the token.
\<close>

definition token_of_response :: "runtime \<Rightarrow> buffer \<Rightarrow> buffer" where
  "token_of_response R responseBuffer =
     (case fromDer R responseBuffer of
        None \<Rightarrow> responseBuffer
      | Some (Primitive c t v) \<Rightarrow> responseBuffer
      | Some (Constructed c t []) \<Rightarrow> responseBuffer
      | Some (Constructed c t (status # others)) \<Rightarrow>
          (let status_ok =
                 (case status of
                    Constructed c' t' (Primitive c'' t'' v # vs) \<Rightarrow>
                      (case derToInteger R v of None \<Rightarrow> False | Some statusValue \<Rightarrow> statusValue = 0)
                  | Constructed c' t' (Constructed c'' t'' ws # vs) \<Rightarrow> False
                  | Constructed c' t' [] \<Rightarrow> True
                  | Primitive c' t' v \<Rightarrow> v = [])
           in if \<not> status_ok then responseBuffer
              else (case others of
                      [] \<Rightarrow> responseBuffer
                    | tokenAsn1 # rest \<Rightarrow>
                        (case toDer R tokenAsn1 of None \<Rightarrow> responseBuffer | Some tokenDer \<Rightarrow> tokenDer))))"

text \<open>
  The outer \<^verbatim>\<open>try\<close> of \<^verbatim>\<open>requestTimestamp\<close>: one POST to \<open>tsaUrl\<close>. \<open>Inl\<close> is the
  message of the error that reaches the \<^verbatim>\<open>catch\<close>.
\<close>

definition timestamp_attempt ::
  "runtime \<Rightarrow> network \<Rightarrow> buffer \<Rightarrow> string \<Rightarrow> request list \<Rightarrow> (string + buffer) \<times> request list" where
  "timestamp_attempt R net dataToTimestamp tsaUrl log =
     (case toDer R (timestampReq R dataToTimestamp) of
        None \<Rightarrow> (Inl ''toDer'', log)
      | Some requestBuffer \<Rightarrow>
          (case post net tsaUrl requestBuffer log of
             (Rejected message, log') \<Rightarrow> (Inl message, log')
           | (Response status body, log') \<Rightarrow>
               if status \<noteq> 200 then (Inl (''TSA server error: '' @ dec status), log')
               else (Inr (token_of_response R body), log')))"

text \<open>
  \<^verbatim>\<open>requestTimestamp\<close>: on an error with the default URL, one more call of itself with
  the alternate URL; an error of that call, or an error with any other URL, is thrown on.
\<close>

function requestTimestamp ::
  "runtime \<Rightarrow> network \<Rightarrow> buffer \<Rightarrow> string \<Rightarrow> request list \<Rightarrow> (string + buffer) \<times> request list" where
  "requestTimestamp R net dataToTimestamp tsaUrl log =
     (case timestamp_attempt R net dataToTimestamp tsaUrl log of
        (Inr tokenBuffer, log') \<Rightarrow> (Inr tokenBuffer, log')
      | (Inl message, log') \<Rightarrow>
          if tsaUrl = ''http://freetsa.org/tsr''
          then (case requestTimestamp R net dataToTimestamp ''http://timestamp.digicert.com'' log' of
                  (Inr tokenBuffer, log'') \<Rightarrow> (Inr tokenBuffer, log'')
                | (Inl retryErr, log'') \<Rightarrow> (Inl (''All TSA servers unavailable: '' @ message), log''))
          else (Inl message, log'))"
  by pat_completeness auto
termination
  by (relation "measure (\<lambda>(R, net, d, tsaUrl, log). if tsaUrl = ''http://freetsa.org/tsr'' then 1 else 0)")
    auto

declare requestTimestamp.simps [simp del]

text \<open>
  \<^verbatim>\<open>embedTimestampInSignature\<close>. The path \<^verbatim>\<open>value[1].value[0].value[4].value[0]\<close>
  leads to the first SignerInfo; an index that is not there, or a primitive value on the
  way, ends in a \<^verbatim>\<open>TypeError\<close>, which is caught: the signature is returned as it was.
\<close>

definition child :: "asn1 \<Rightarrow> nat \<Rightarrow> asn1 option" where
  "child a i =
     (case a of
        Primitive c t v \<Rightarrow> None
      | Constructed c t vs \<Rightarrow> if i < length vs then Some (vs ! i) else None)"

definition set_child :: "asn1 \<Rightarrow> nat \<Rightarrow> asn1 \<Rightarrow> asn1" where
  "set_child a i b =
     (case a of
        Primitive c t v \<Rightarrow> a
      | Constructed c t vs \<Rightarrow> Constructed c t (vs[i := b]))"

definition is_unsignedAttrs :: "asn1 \<Rightarrow> bool" where
  "is_unsignedAttrs v =
     (case v of
        Primitive c t x \<Rightarrow> c = CONTEXT_SPECIFIC \<and> t = 1
      | Constructed c t xs \<Rightarrow> c = CONTEXT_SPECIFIC \<and> t = 1)"

definition timestampAttr :: "runtime \<Rightarrow> asn1 \<Rightarrow> asn1" where
  "timestampAttr R tsAsn1 =
     Constructed UNIVERSAL SEQUENCE
       [Primitive UNIVERSAL OID (oidToDer R ''1.2.840.113549.1.9.16.2.14''),
        Constructed UNIVERSAL SET [tsAsn1]]"

text \<open>
  The SignerInfo with the attribute pushed onto its unsigned attributes: onto the first
  element tagged \<open>[1]\<close> when there is one (\<open>None\<close> when that element is primitive and has
  no \<^verbatim>\<open>push\<close>), onto a new element \<open>[1]\<close> at the end otherwise.
\<close>

fun push_unsigned :: "asn1 list \<Rightarrow> asn1 \<Rightarrow> asn1 list option" where
  "push_unsigned [] attr = Some [Constructed CONTEXT_SPECIFIC 1 [attr]]"
| "push_unsigned (v # vs) attr =
     (if is_unsignedAttrs v
      then (case v of
              Primitive c t x \<Rightarrow> None
            | Constructed c t xs \<Rightarrow> Some (Constructed c t (xs @ [attr]) # vs))
      else (case push_unsigned vs attr of None \<Rightarrow> None | Some vs' \<Rightarrow> Some (v # vs')))"

definition add_timestamp_attribute :: "runtime \<Rightarrow> asn1 \<Rightarrow> asn1 \<Rightarrow> asn1 option" where
  "add_timestamp_attribute R cmsAsn1 tsAsn1 =
     (case child cmsAsn1 1 of None \<Rightarrow> None | Some contentInfo \<Rightarrow>
      case child contentInfo 0 of None \<Rightarrow> None | Some signedData \<Rightarrow>
      case child signedData 4 of None \<Rightarrow> None | Some signerInfos \<Rightarrow>
      case child signerInfos 0 of None \<Rightarrow> None
      | Some (Primitive c t v) \<Rightarrow> None
      | Some (Constructed c t vs) \<Rightarrow>
          (case push_unsigned vs (timestampAttr R tsAsn1) of
             None \<Rightarrow> None
           | Some vs' \<Rightarrow>
               Some (set_child cmsAsn1 1
                      (set_child contentInfo 0
                        (set_child signedData 4
                          (set_child signerInfos 0 (Constructed c t vs')))))))"

definition embedTimestampInSignature :: "runtime \<Rightarrow> buffer \<Rightarrow> buffer \<Rightarrow> buffer" where
  "embedTimestampInSignature R cmsSignature timestampToken =
     (if timestampToken = [] then cmsSignature
      else
        case fromDer R cmsSignature of None \<Rightarrow> cmsSignature | Some cmsAsn1 \<Rightarrow>
        case fromDer R timestampToken of None \<Rightarrow> cmsSignature | Some tsAsn1 \<Rightarrow>
        case add_timestamp_attribute R cmsAsn1 tsAsn1 of None \<Rightarrow> cmsSignature | Some cmsAsn1' \<Rightarrow>
        case toDer R cmsAsn1' of None \<Rightarrow> cmsSignature | Some newDer \<Rightarrow> newDer)"

text \<open>
  \<^verbatim>\<open>addTimestampToPDF\<close>: every error of the four steps is caught and the signed buffer
  returned as it came in.
\<close>

definition addTimestampToPDF ::
  "runtime \<Rightarrow> network \<Rightarrow> buffer \<Rightarrow> string \<Rightarrow> request list \<Rightarrow> buffer \<times> request list" where
  "addTimestampToPDF R net signedPdf tsaUrl log =
     (case extractSignatureFromPDF signedPdf of
        None \<Rightarrow> (signedPdf, log)
      | Some ex \<Rightarrow>
          (case requestTimestamp R net (signature ex) tsaUrl log of
             (Inl message, log') \<Rightarrow> (signedPdf, log')
           | (Inr timestampToken, log') \<Rightarrow>
               (let newSignature = embedTimestampInSignature R (signature ex) timestampToken
                in (replaceSignatureInPDF signedPdf (signatureHex ex) newSignature, log'))))"

section \<open>The validation helper (\<^verbatim>\<open>ltv-helper\<close>)\<close>

text \<open>
  \<^verbatim>\<open>getOCSPUrl\<close>. The loop over the elements of the Authority Information Access
  extension; a \<^verbatim>\<open>TypeError\<close> on the way (an element that is a non-empty primitive, an
  identifier that is constructed) is caught and the result is \<^verbatim>\<open>null\<close>.
\<close>

fun ocsp_url_of :: "runtime \<Rightarrow> asn1 list \<Rightarrow> string option" where
  "ocsp_url_of R [] = None"
| "ocsp_url_of R (Primitive c t v # items) = (if v = [] then ocsp_url_of R items else None)"
| "ocsp_url_of R (Constructed c t [] # items) = ocsp_url_of R items"
| "ocsp_url_of R (Constructed c t (Constructed c' t' xs # rest) # items) = None"
| "ocsp_url_of R (Constructed c t (Primitive c' t' oidBytes # rest) # items) =
     (if derToOid R oidBytes = ''1.3.6.1.5.5.7.48.1''
      then (case rest of
              Primitive c'' t'' url # others \<Rightarrow>
                if take 4 url = ''http'' then Some url else ocsp_url_of R items
            | Constructed c'' t'' xs # others \<Rightarrow> ocsp_url_of R items
            | [] \<Rightarrow> ocsp_url_of R items)
      else ocsp_url_of R items)"

definition getOCSPUrl :: "runtime \<Rightarrow> certificate \<Rightarrow> string option" where
  "getOCSPUrl R cert =
     (case find (\<lambda>ext. fst ext = ''1.3.6.1.5.5.7.1.1'') (extensions cert) of
        None \<Rightarrow> None
      | Some aiaExt \<Rightarrow>
          (case fromDer R (snd aiaExt) of
             None \<Rightarrow> None
           | Some (Primitive c t v) \<Rightarrow> None
           | Some (Constructed c t items) \<Rightarrow> ocsp_url_of R items))"

text \<open>\<^verbatim>\<open>createOCSPRequest\<close>, \<open>None\<close> when one of the encodings throws.\<close>

definition createOCSPRequest :: "runtime \<Rightarrow> certificate \<Rightarrow> certificate \<Rightarrow> buffer option" where
  "createOCSPRequest R cert issuerCert =
     (case issuerToDer R cert of None \<Rightarrow> None | Some issuerName \<Rightarrow>
      case publicKeyToDer R issuerCert of None \<Rightarrow> None | Some issuerKey \<Rightarrow>
        toDer R
          (Constructed UNIVERSAL SEQUENCE
            [Constructed UNIVERSAL SEQUENCE
              [Constructed UNIVERSAL SEQUENCE
                [Constructed UNIVERSAL SEQUENCE
                  [Constructed UNIVERSAL SEQUENCE
                     [Primitive UNIVERSAL OID (oidToDer R ''1.3.14.3.2.26'')],
                   Primitive UNIVERSAL OCTETSTRING (sha1 R issuerName),
                   Primitive UNIVERSAL OCTETSTRING (sha1 R issuerKey),
                   Primitive UNIVERSAL INTEGER (hexToBytes R (serialNumber cert))]]]]))"

text \<open>
  \<^verbatim>\<open>requestOCSP\<close>: no URL, no request. Every error (the request cannot be built, the
  POST is rejected, the status is not 200) is caught and the result is \<^verbatim>\<open>null\<close>.
\<close>

definition requestOCSP ::
  "runtime \<Rightarrow> network \<Rightarrow> certificate \<Rightarrow> certificate \<Rightarrow> request list \<Rightarrow> buffer option \<times> request list" where
  "requestOCSP R net cert issuerCert log =
     (case getOCSPUrl R cert of
        None \<Rightarrow> (None, log)
      | Some ocspUrl \<Rightarrow>
          (case createOCSPRequest R cert issuerCert of
             None \<Rightarrow> (None, log)
           | Some ocspRequest \<Rightarrow>
               (case post net ocspUrl ocspRequest log of
                  (Rejected message, log') \<Rightarrow> (None, log')
                | (Response status body, log') \<Rightarrow>
                    if status \<noteq> 200 then (None, log') else (Some body, log'))))"

text \<open>
  \<^verbatim>\<open>getNextObjectNumber\<close>, with the pattern \<^verbatim>\<open>/(\d+)\s+0\s+obj/g\<close>. Each match is read
  with \<^verbatim>\<open>parseInt(m.match(/\d+/)[0])\<close>; \<^verbatim>\<open>Math.max(...numbers)\<close> throws when the engine
  cannot pass that many arguments.
\<close>

datatype dss_failure =
  Spread_RangeError | Certificate_error | Catalog_unpatched | Xref_missing

definition obj_rx :: regex where
  "obj_rx = [Mark, Plus is_digit, Mark, Plus is_space, lit CHR ''0'', Plus is_space] @ str ''obj''"

text \<open>The digits \<^verbatim>\<open>m.match(/\d+/)[0]\<close> of a match (a match of the pattern starts with them).\<close>

definition first_digits :: "string \<Rightarrow> string" where
  "first_digits m =
     (case rx_exec [Plus is_digit] m of None \<Rightarrow> [] | Some (a, ms, t) \<Rightarrow> between a t)"

definition Math_max :: "jsnum list \<Rightarrow> jsnum" where
  "Math_max numbers = fold js_max numbers (Fin 0)"

definition getNextObjectNumber :: "runtime \<Rightarrow> string \<Rightarrow> dss_failure + jsnum" where
  "getNextObjectNumber R pdfText =
     (let matches = rx_match_all obj_rx pdfText in
      if matches = [] then Inr (Fin 1)
      else
        let numbers = map (\<lambda>m. parseInt (first_digits m)) matches in
        if argLimit R < length numbers then Inl Spread_RangeError
        else Inr (js_succ (Math_max numbers)))"

text \<open>
  The objects of the Document Security Store. Each object pushed onto \<^verbatim>\<open>dssObjects\<close> is
  kept as its number and the text that follows the number; \<open>render_object\<close> is the string
  the source builds.
\<close>

type_synonym dss_object = "jsnum \<times> string"

definition render_object :: "runtime \<Rightarrow> dss_object \<Rightarrow> string" where
  "render_object R ob = String_of R (fst ob) @ snd ob"

definition stream_object :: "runtime \<Rightarrow> jsnum \<Rightarrow> string \<Rightarrow> dss_object" where
  "stream_object R objNum b64 =
     (objNum, '' 0 obj'' @ [newline] @ ''<< /Length '' @ String_of R (Fin (length b64)) @ '' >>'' @
        [newline] @ ''stream'' @ [newline] @ b64 @ [newline] @ ''endstream'' @ [newline] @
        ''endobj'' @ [newline])"

fun join :: "string \<Rightarrow> string list \<Rightarrow> string" where
  "join sep [] = []"
| "join sep [x] = x"
| "join sep (x # y # r) = x @ sep @ join sep (y # r)"

definition array_object :: "runtime \<Rightarrow> jsnum \<Rightarrow> string list \<Rightarrow> dss_object" where
  "array_object R arrNum refs =
     (arrNum, '' 0 obj'' @ [newline] @ ''[ '' @ join '' '' refs @ '' ]'' @ [newline] @
        ''endobj'' @ [newline])"

text \<open>
  The \<^verbatim>\<open>map\<close> over the payloads: each takes the current \<^verbatim>\<open>objectNumber\<close> and increments
  it. The result is the objects pushed, the references \<^verbatim>\<open>"n 0 R"\<close>, and the next number.
\<close>

fun add_streams :: "runtime \<Rightarrow> string list \<Rightarrow> jsnum \<Rightarrow> dss_object list \<times> string list \<times> jsnum" where
  "add_streams R [] objectNumber = ([], [], objectNumber)"
| "add_streams R (b64 # rest) objectNumber =
     (case add_streams R rest (js_succ objectNumber) of
        (objs, refs, n) \<Rightarrow>
          (stream_object R objectNumber b64 # objs,
           (String_of R objectNumber @ '' 0 R'') # refs, n))"

definition dict_entry :: "runtime \<Rightarrow> string \<Rightarrow> jsnum option \<Rightarrow> string" where
  "dict_entry R name num =
     (case num of
        None \<Rightarrow> []
      | Some n \<Rightarrow> if js_truthy n then name @ String_of R n @ '' 0 R'' else [])"

text \<open>
  All objects of one pass, in the order they are pushed, and the number of the DSS
  dictionary. \<open>ders\<close> are the DER encodings of the certificates.
\<close>

definition build_dss ::
  "runtime \<Rightarrow> jsnum \<Rightarrow> buffer option list \<Rightarrow> buffer list \<Rightarrow> dss_object list \<times> jsnum" where
  "build_dss R objectNumber ocspResponses ders =
     (let (objs1, ocspArray, n1) =
            (if ocspResponses \<noteq> []
             then add_streams R (map (base64 R) (List.map_filter id ocspResponses)) objectNumber
             else ([], [], objectNumber));
          (ocspObjNum, objs2, n2) =
            (if ocspArray \<noteq> [] then (Some n1, [array_object R n1 ocspArray], js_succ n1)
             else (None, [], n1));
          (objs3, certArray, n3) =
            (if ders \<noteq> [] then add_streams R (map (base64 R) ders) n2 else ([], [], n2));
          (certObjNum, objs4, n4) =
            (if ders \<noteq> [] then (Some n3, [array_object R n3 certArray], js_succ n3)
             else (None, [], n3));
          dssNum = n4;
          dssDictContent =
            ''/Type /DSS'' @ dict_entry R '' /OCSPs '' ocspObjNum @ dict_entry R '' /Certs '' certObjNum;
          dssDict = (dssNum, '' 0 obj'' @ [newline] @ ''<< '' @ dssDictContent @ '' >>'' @ [newline] @
                       ''endobj'' @ [newline])
      in (objs1 @ objs2 @ objs3 @ objs4 @ [dssDict], dssNum))"

text \<open>
  \<^verbatim>\<open>embedDSS\<close>. \<open>embedDSS_body\<close> is the \<^verbatim>\<open>try\<close> block: \<open>Inl\<close> says why it did not
  come to the end (an exception, or the early return when the Catalog was not patched).
  The Catalog pattern is \<^verbatim>\<open>/\/Type\s*\/Catalog/\<close>.
\<close>

definition catalog_rx :: regex where
  "catalog_rx = str ''/Type'' @ [Star is_space] @ str ''/Catalog''"

definition embedDSS_body ::
  "runtime \<Rightarrow> buffer \<Rightarrow> buffer option list \<Rightarrow> certificate list \<Rightarrow> dss_failure + buffer" where
  "embedDSS_body R pdfText ocspResponses certs =
     (case getNextObjectNumber R pdfText of
        Inl failure \<Rightarrow> Inl failure
      | Inr objectNumber \<Rightarrow>
          (case those (map (certificateToDer R) certs) of
             None \<Rightarrow> Inl Certificate_error
           | Some ders \<Rightarrow>
               (case build_dss R objectNumber ocspResponses ders of
                  (dssObjects, dssNum) \<Rightarrow>
                    (let catalogUpdated =
                           rx_replace_first catalog_rx
                             (''/Type /Catalog /DSS '' @ String_of R dssNum @ '' 0 R'') pdfText
                     in if catalogUpdated = pdfText then Inl Catalog_unpatched
                        else
                          (case lastIndexOf ''xref'' catalogUpdated of
                             None \<Rightarrow> Inl Xref_missing
                           | Some xrefIndex \<Rightarrow>
                               Inr (take xrefIndex catalogUpdated @
                                    join [newline] (map (render_object R) dssObjects) @ [newline] @
                                    drop xrefIndex catalogUpdated))))))"

definition embedDSS :: "runtime \<Rightarrow> buffer \<Rightarrow> buffer option list \<Rightarrow> certificate list \<Rightarrow> buffer" where
  "embedDSS R pdfBuffer ocspResponses certs =
     (case embedDSS_body R pdfBuffer ocspResponses certs of
        Inl failure \<Rightarrow> pdfBuffer
      | Inr newPdf \<Rightarrow> newPdf)"

section \<open>The server\<close>

text \<open>
  A JavaScript object as the list of its properties, in the order they were written, and
  the values the results hold.
\<close>

datatype json =
  JBool bool | JString string | JCertificate certificate | JPkcs12 pkcs12

type_synonym object = "(string \<times> json) list"

text \<open>\<^verbatim>\<open>a || b\<close> for the field of a name that may be missing or empty.\<close>

definition or_else :: "string option \<Rightarrow> string \<Rightarrow> string" where
  "or_else a b = (case a of None \<Rightarrow> b | Some x \<Rightarrow> if x = [] then b else x)"

text \<open>
  \<^verbatim>\<open>parseP12Certificate\<close> of the server. Whatever is thrown inside is caught and becomes
  the failure value.
\<close>

definition parseP12Certificate :: "runtime \<Rightarrow> buffer \<Rightarrow> string \<Rightarrow> object" where
  "parseP12Certificate R p12Buffer password =
     (case fromDer R p12Buffer of
        None \<Rightarrow> [(''success'', JBool False), (''error'', JString (derError R p12Buffer))]
      | Some p12Asn1 \<Rightarrow>
          (case pkcs12FromAsn1 R p12Asn1 password of
             Inl message \<Rightarrow> [(''success'', JBool False), (''error'', JString message)]
           | Inr p12 \<Rightarrow>
               (case certBags p12 of
                  [] \<Rightarrow> [(''success'', JBool False),
                         (''error'', JString ''No certificate found in P12 file'')]
                | cert # others \<Rightarrow>
                    [(''success'', JBool True),
                     (''commonName'', JString (or_else (subject_CN cert) ''Unknown Signer'')),
                     (''email'', JString (or_else (subject_emailAddress cert) [])),
                     (''organization'', JString (or_else (subject_O cert) [])),
                     (''validFrom'', JString (notBefore cert)),
                     (''validTo'', JString (notAfter cert)),
                     (''cert'', JCertificate cert),
                     (''p12'', JPkcs12 p12)])))"

text \<open>What an endpoint answers: a JSON body with a status, or the signed PDF to download.\<close>

datatype response = Json nat object | Download buffer

definition succeeded :: "object \<Rightarrow> bool" where
  "succeeded result = (map_of result ''success'' = Some (JBool True))"

definition error_of :: "object \<Rightarrow> string" where
  "error_of result = (case map_of result ''error'' of Some (JString message) \<Rightarrow> message | _ \<Rightarrow> [])"

text \<open>
  \<^verbatim>\<open>POST /api/parse-certificate\<close>: \<^verbatim>\<open>const { cert, p12, ...safeResult } = result\<close> takes
  the two properties out, and the rest is sent.
\<close>

definition parse_certificate_endpoint :: "runtime \<Rightarrow> buffer option \<Rightarrow> string \<Rightarrow> response" where
  "parse_certificate_endpoint R upload password =
     (case upload of
        None \<Rightarrow> Json 400 [(''error'', JString ''No certificate file uploaded'')]
      | Some buf \<Rightarrow>
          (let result = parseP12Certificate R buf password in
           if succeeded result
           then (let safeResult = filter (\<lambda>p. fst p \<noteq> ''cert'' \<and> fst p \<noteq> ''p12'') result
                 in Json 200 safeResult)
           else Json 400 [(''error'', JString (error_of result))]))"

text \<open>
  The validation step of \<^verbatim>\<open>POST /api/sign-pdf\<close>: the chain of the container, the test
  for a self-signed leaf, the OCSP request when an issuer is in the chain, and the
  embedding.
\<close>

definition extractCertChain :: "pkcs12 \<Rightarrow> certificate list" where
  "extractCertChain p12 = certBags p12"

definition isSelfSigned :: "certificate \<Rightarrow> bool" where
  "isSelfSigned cert = (subject_CN cert = issuer_CN cert)"

definition ltv_step ::
  "runtime \<Rightarrow> network \<Rightarrow> pkcs12 \<Rightarrow> buffer \<Rightarrow> request list \<Rightarrow> buffer \<times> request list" where
  "ltv_step R net p12 signedPdf log =
     (let certChain = extractCertChain p12 in
      case certChain of
        [] \<Rightarrow> (signedPdf, log)
      | cert # issuers \<Rightarrow>
          if isSelfSigned cert then (embedDSS R signedPdf [] certChain, log)
          else
            (case issuers of
               issuerCert # others \<Rightarrow>
                 (case requestOCSP R net cert issuerCert log of
                    (ocspResponse, log') \<Rightarrow>
                      (let ocspResponses = (case ocspResponse of None \<Rightarrow> [] | Some r \<Rightarrow> [Some r])
                       in (embedDSS R signedPdf ocspResponses certChain, log')))
             | [] \<Rightarrow> (embedDSS R signedPdf [] certChain, log)))"

text \<open>
  \<^verbatim>\<open>POST /api/sign-pdf\<close> of the server with timestamp and validation material. An
  error thrown before the download (the credential check among them) ends in the answer
  \<^verbatim>\<open>500 {error}\<close>.
\<close>

record sign_request =
  pdf_upload :: "buffer option"
  certificate_upload :: "buffer option"
  password :: string
  reason :: string
  location :: string

definition sign_pdf_endpoint ::
  "runtime \<Rightarrow> network \<Rightarrow> sign_request \<Rightarrow> request list \<Rightarrow> response \<times> request list" where
  "sign_pdf_endpoint R net rq log =
     (case (pdf_upload rq, certificate_upload rq) of
        (Some originalPdfBuffer, Some p12Buffer) \<Rightarrow>
          (let reason = (if reason rq = [] then ''Document approval'' else reason rq);
               location = (if location rq = [] then ''Digital Signature'' else location rq);
               flattenedPdfBuffer =
                 (case flatten R originalPdfBuffer of None \<Rightarrow> originalPdfBuffer | Some b \<Rightarrow> b);
               certInfo = parseP12Certificate R p12Buffer (password rq)
           in if \<not> succeeded certInfo
              then (Json 500 [(''error'',
                      JString (''Invalid certificate or password: '' @ error_of certInfo))], log)
              else
                (case plainAddPlaceholder R flattenedPdfBuffer reason location 32768 of
                   Inl message \<Rightarrow> (Json 500 [(''error'', JString message)], log)
                 | Inr pdfWithPlaceholder \<Rightarrow>
                     (case sign R pdfWithPlaceholder p12Buffer (password rq) of
                        Inl message \<Rightarrow> (Json 500 [(''error'', JString message)], log)
                      | Inr signedPdf \<Rightarrow>
                          (case addTimestampToPDF R net signedPdf ''http://freetsa.org/tsr'' log of
                             (newSignedPdf, log') \<Rightarrow>
                               (let signedPdf' = (if newSignedPdf \<noteq> [] then newSignedPdf else signedPdf) in
                                case map_of certInfo ''p12'' of
                                  Some (JPkcs12 p12) \<Rightarrow>
                                    (case ltv_step R net p12 signedPdf' log' of
                                       (signedPdf'', log'') \<Rightarrow> (Download signedPdf'', log''))
                                | _ \<Rightarrow> (Download signedPdf', log'))))))
      | _ \<Rightarrow> (Json 400 [(''error'', JString ''PDF and certificate files are required'')], log))"

text \<open>A POST has failed when it was rejected or its status is not 200.\<close>


definition post_fails :: "http_result \<Rightarrow> bool" where
  "post_fails r = (case r of Rejected message \<Rightarrow> True | Response status body \<Rightarrow> status \<noteq> 200)"


text \<open>
  A runtime and a network for the examples: every encoder answers with a fixed string,
  no decoder succeeds, and no server can be reached.
\<close>

definition stub_runtime :: runtime where
  "stub_runtime =
     \<lparr>argLimit = 65536, bigString = (\<lambda>x. ''9007199254740992''), base64 = (\<lambda>b. b),
      sha1 = (\<lambda>b. b), sha256 = (\<lambda>b. b), inflateSync = (\<lambda>b. None),
      fromDer = (\<lambda>b. None), toDer = (\<lambda>a. Some ''DER''), derToOid = (\<lambda>s. s),
      derToInteger = (\<lambda>s. None), oidToDer = (\<lambda>s. s), integerToDer = (\<lambda>i. ''1''),
      hexToBytes = (\<lambda>s. s), certificateToDer = (\<lambda>c. Some (serialNumber c)),
      issuerToDer = (\<lambda>c. None), publicKeyToDer = (\<lambda>c. None),
      derError = (\<lambda>b. ''Too few bytes to parse DER.''),
      pkcs12FromAsn1 = (\<lambda>a password. Inl ''PKCS#12 MAC could not be verified. Invalid password?''),
      flatten = (\<lambda>b. None),
      plainAddPlaceholder = (\<lambda>b reason location n. Inr b),
      sign = (\<lambda>b p12Buffer passphrase. Inr b)\<rparr>"

definition unreachable :: network where
  "unreachable = (\<lambda>log req. Rejected ''timeout'')"


text \<open>The values that must not leave the server: the certificate object and the container.\<close>

definition is_secret :: "json \<Rightarrow> bool" where
  "is_secret v = (case v of JCertificate c \<Rightarrow> True | JPkcs12 p \<Rightarrow> True | _ \<Rightarrow> False)"

text \<open>
  A certificate and a runtime for the examples: every buffer parses as DER, and the
  container opens with the password \<^verbatim>\<open>secret\<close> only.
\<close>

definition example_certificate :: certificate where
  "example_certificate =
     \<lparr>subject_CN = Some ''Test'', subject_emailAddress = None, subject_O = None,
      issuer_CN = Some ''Test'', notBefore = ''2025-01-01'', notAfter = ''2026-01-01'',
      extensions = [], serialNumber = ''01''\<rparr>"

definition example_runtime :: runtime where
  "example_runtime =
     stub_runtime
       \<lparr>fromDer := (\<lambda>b. Some (Primitive 0 0 b)),
        pkcs12FromAsn1 := (\<lambda>a password.
          if password = ''secret''
          then Inr \<lparr>certBags = [example_certificate], privateKey = ''key''\<rparr>
          else Inl ''PKCS#12 MAC could not be verified. Invalid password?'')\<rparr>"

text \<open>
  The reading of "the buffer contains the marker, case-insensitively": some position of
  the buffer where the marker stands, letters compared without case.
\<close>


definition prefix_ci :: "string \<Rightarrow> string \<Rightarrow> bool" where
  "prefix_ci m s = (length m \<le> length s \<and> map lower (take (length m) s) = map lower m)"

fun contains_ci :: "string \<Rightarrow> string \<Rightarrow> bool" where
  "contains_ci m [] = prefix_ci m []"
| "contains_ci m (c # cs) = (prefix_ci m (c # cs) \<or> contains_ci m cs)"

text \<open>The pattern matches at the head of the input.\<close>

definition rx_accepts :: "regex \<Rightarrow> string \<Rightarrow> bool" where
  "rx_accepts r s = (rx_match r s \<noteq> None)"


text \<open>
  The marker \<open>m\<close> stands in \<open>s\<close> at position \<open>i\<close>, characters compared after \<open>f\<close>
  (the case folding, or nothing).
\<close>

definition occurs_at :: "(char \<Rightarrow> char) \<Rightarrow> string \<Rightarrow> string \<Rightarrow> nat \<Rightarrow> bool" where
  "occurs_at f m s i = (i + length m \<le> length s \<and> (\<forall>j<length m. f (s ! (i + j)) = f (m ! j)))"

text \<open>
  The texts that the three alternatives of the signature pattern match: the two names
  with any run of white space between them.
\<close>

definition sig_marker :: "string \<Rightarrow> bool" where
  "sig_marker m =
     (\<exists>w. list_all is_space w \<and>
        (m = ''/Type'' @ w @ ''/Sig'' \<or> m = ''/FT'' @ w @ ''/Sig'' \<or>
         m = ''/SubFilter'' @ w @ ''/adbe.pkcs7''))"

text \<open>A runtime for the examples whose signer appends a signature dictionary.\<close>

definition signing_runtime :: runtime where
  "signing_runtime =
     example_runtime
       \<lparr>sign := (\<lambda>b p12Buffer passphrase. Inr (b @ ''<< /Type /Sig >>''))\<rparr>"


subsection \<open>What the matcher accepts\<close>

lemma space_cases: "is_space c \<Longrightarrow> c = CHR 0x09 \<or> c = CHR 0x0A \<or> c = CHR 0x0B \<or> c = CHR 0x0C \<or> c = CHR 0x0D \<or> c = CHR 0x20 \<or> c = CHR 0xA0"
  by (simp add: is_space_def)

lemma lower_space_id: "is_space c \<Longrightarrow> lower c = c"
  by (drule space_cases) (elim disjE; simp add: lower_def)

lemma lower_cases: "lower x = x \<or> lower x \<in> set ''abcdefghijklmnopqrstuvwxyz''"
  by (simp add: lower_def)

lemma space_not_letter: "is_space c \<Longrightarrow> c \<notin> set ''abcdefghijklmnopqrstuvwxyz''"
  by (drule space_cases) (elim disjE; simp)

lemma lower_space: "is_space c \<Longrightarrow> lower x = lower c \<Longrightarrow> x = c"
  using lower_cases[of x] space_not_letter[of c] lower_space_id[of c] by metis

lemma rx_accepts_Nil [simp]: "rx_accepts [] s"
  by (simp add: rx_accepts_def)

lemma rx_accepts_One:
  "rx_accepts (One p # r) s \<longleftrightarrow> (\<exists>c cs. s = c # cs \<and> p c \<and> rx_accepts r cs)"
  by (cases s) (simp_all add: rx_accepts_def)

lemma rx_accepts_Mark: "rx_accepts (Mark # r) s \<longleftrightarrow> rx_accepts r s"
  by (simp add: rx_accepts_def split: option.splits)

lemma rx_accepts_Star_Nil: "rx_accepts (Star p # r) [] \<longleftrightarrow> rx_accepts r []"
  by (simp add: rx_accepts_def)

lemma rx_accepts_Star_Cons:
  "rx_accepts (Star p # r) (c # cs) \<longleftrightarrow>
     (p c \<and> rx_accepts (Star p # r) cs) \<or> rx_accepts r (c # cs)"
  by (simp add: rx_accepts_def split: option.splits)

lemma rx_accepts_Star:
  "rx_accepts (Star p # r) s \<longleftrightarrow> (\<exists>w t. s = w @ t \<and> list_all p w \<and> rx_accepts r t)"
proof (induction s)
  case Nil
  then show ?case by (simp add: rx_accepts_Star_Nil)
next
  case (Cons c cs)
  show ?case
  proof
    assume "rx_accepts (Star p # r) (c # cs)"
    then consider "p c" "rx_accepts (Star p # r) cs" | "rx_accepts r (c # cs)"
      unfolding rx_accepts_Star_Cons by blast
    then show "\<exists>w t. c # cs = w @ t \<and> list_all p w \<and> rx_accepts r t"
    proof cases
      case 1
      with Cons obtain w t where "cs = w @ t" "list_all p w" "rx_accepts r t" by blast
      with 1 have "c # cs = (c # w) @ t \<and> list_all p (c # w) \<and> rx_accepts r t" by simp
      then show ?thesis by blast
    next
      case 2
      then have "c # cs = [] @ (c # cs) \<and> list_all p [] \<and> rx_accepts r (c # cs)" by simp
      then show ?thesis by blast
    qed
  next
    assume "\<exists>w t. c # cs = w @ t \<and> list_all p w \<and> rx_accepts r t"
    then obtain w t where wt: "c # cs = w @ t" "list_all p w" "rx_accepts r t" by blast
    show "rx_accepts (Star p # r) (c # cs)"
    proof (cases w)
      case Nil
      with wt have "rx_accepts r (c # cs)" by simp
      then show ?thesis by (simp add: rx_accepts_Star_Cons)
    next
      case (Cons a w')
      with wt have "cs = w' @ t" "list_all p w'" "p c" by auto
      with wt(3) Cons.IH have "rx_accepts (Star p # r) cs" by blast
      with \<open>p c\<close> show ?thesis by (simp add: rx_accepts_Star_Cons)
    qed
  qed
qed

lemma rx_test_iff: "rx_test r s \<longleftrightarrow> (\<exists>u v. s = u @ v \<and> rx_accepts r v)"
proof (induction s)
  case Nil
  then show ?case by (simp add: rx_test_def rx_accepts_def split: option.splits)
next
  case (Cons c cs)
  have step: "rx_test r (c # cs) \<longleftrightarrow> rx_accepts r (c # cs) \<or> rx_test r cs"
    by (simp add: rx_test_def rx_accepts_def split: option.splits)
  show ?case
  proof
    assume "rx_test r (c # cs)"
    then consider "rx_accepts r (c # cs)" | "rx_test r cs" unfolding step by blast
    then show "\<exists>u v. c # cs = u @ v \<and> rx_accepts r v"
    proof cases
      case 1
      then have "c # cs = [] @ (c # cs) \<and> rx_accepts r (c # cs)" by simp
      then show ?thesis by blast
    next
      case 2
      with Cons obtain u v where "cs = u @ v" "rx_accepts r v" by blast
      then have "c # cs = (c # u) @ v \<and> rx_accepts r v" by simp
      then show ?thesis by blast
    qed
  next
    assume "\<exists>u v. c # cs = u @ v \<and> rx_accepts r v"
    then obtain u v where uv: "c # cs = u @ v" "rx_accepts r v" by blast
    show "rx_test r (c # cs)"
    proof (cases u)
      case Nil
      with uv have "rx_accepts r (c # cs)" by simp
      then show ?thesis by (simp add: step)
    next
      case (Cons a u')
      with uv have "cs = u' @ v" by simp
      with uv(2) Cons.IH have "rx_test r cs" by blast
      then show ?thesis by (simp add: step)
    qed
  qed
qed

lemma contains_ci_iff: "contains_ci m s \<longleftrightarrow> (\<exists>u v. s = u @ v \<and> prefix_ci m v)"
proof (induction s)
  case Nil
  then show ?case by simp
next
  case (Cons c cs)
  show ?case
  proof
    assume "contains_ci m (c # cs)"
    then consider "prefix_ci m (c # cs)" | "contains_ci m cs" by auto
    then show "\<exists>u v. c # cs = u @ v \<and> prefix_ci m v"
    proof cases
      case 1
      then have "c # cs = [] @ (c # cs) \<and> prefix_ci m (c # cs)" by simp
      then show ?thesis by blast
    next
      case 2
      with Cons obtain u v where "cs = u @ v" "prefix_ci m v" by blast
      then have "c # cs = (c # u) @ v \<and> prefix_ci m v" by simp
      then show ?thesis by blast
    qed
  next
    assume "\<exists>u v. c # cs = u @ v \<and> prefix_ci m v"
    then obtain u v where uv: "c # cs = u @ v" "prefix_ci m v" by blast
    show "contains_ci m (c # cs)"
    proof (cases u)
      case Nil
      with uv show ?thesis by auto
    next
      case (Cons a u')
      with uv have "cs = u' @ v" by simp
      with uv(2) Cons.IH have "contains_ci m cs" by blast
      then show ?thesis by simp
    qed
  qed
qed

lemma prefix_ci_Nil [simp]: "prefix_ci [] s"
  by (simp add: prefix_ci_def)

lemma prefix_ci_Cons:
  "prefix_ci (x # a) s \<longleftrightarrow> (\<exists>c cs. s = c # cs \<and> lower c = lower x \<and> prefix_ci a cs)"
  by (cases s) (auto simp: prefix_ci_def)

lemma prefix_ci_append:
  "prefix_ci (a @ b) s \<longleftrightarrow> prefix_ci a s \<and> prefix_ci b (drop (length a) s)"
proof (induction a arbitrary: s)
  case Nil
  then show ?case by simp
next
  case (Cons x a)
  then show ?case by (cases s) (auto simp: prefix_ci_Cons)
qed

lemma rx_accepts_str_i:
  "rx_accepts (str_i a @ r) s \<longleftrightarrow> prefix_ci a s \<and> rx_accepts r (drop (length a) s)"
proof (induction a arbitrary: s)
  case Nil
  then show ?case by (simp add: str_i_def)
next
  case (Cons x a)
  have "rx_accepts (str_i (x # a) @ r) s \<longleftrightarrow>
          (\<exists>c cs. s = c # cs \<and> lower c = lower x \<and> rx_accepts (str_i a @ r) cs)"
    by (simp add: str_i_def lit_i_def rx_accepts_One)
  with Cons show ?case by (cases s) (auto simp: prefix_ci_Cons)
qed

lemma map_lower_spaces:
  "list_all is_space w \<Longrightarrow> map lower x = map lower w \<Longrightarrow> x = w"
proof (induction w arbitrary: x)
  case Nil
  then show ?case by simp
next
  case (Cons c w)
  then obtain y ys where x: "x = y # ys" by (cases x) auto
  with Cons show ?case by (auto dest: lower_space)
qed

lemma prefix_ci_self: "prefix_ci w (w @ t)"
  by (simp add: prefix_ci_def)

lemma marker_accepts_iff:
  "rx_accepts (str_i a @ [Star is_space] @ str_i b) v \<longleftrightarrow>
     (\<exists>w. list_all is_space w \<and> prefix_ci (a @ w @ b) v)"
proof
  assume "rx_accepts (str_i a @ [Star is_space] @ str_i b) v"
  then have a: "prefix_ci a v" and "rx_accepts (Star is_space # str_i b @ []) (drop (length a) v)"
    by (simp_all add: rx_accepts_str_i)
  then obtain w t where wt: "drop (length a) v = w @ t" "list_all is_space w"
      "rx_accepts (str_i b @ []) t"
    unfolding rx_accepts_Star by blast
  then have "prefix_ci b t" unfolding rx_accepts_str_i by simp
  with wt(1) have "prefix_ci (w @ b) (drop (length a) v)"
    by (simp add: prefix_ci_append prefix_ci_self)
  with a have "prefix_ci (a @ w @ b) v" by (simp add: prefix_ci_append)
  with wt(2) show "\<exists>w. list_all is_space w \<and> prefix_ci (a @ w @ b) v" by blast
next
  assume "\<exists>w. list_all is_space w \<and> prefix_ci (a @ w @ b) v"
  then obtain w where w: "list_all is_space w" "prefix_ci (a @ w @ b) v" by blast
  define x where "x = drop (length a) v"
  from w(2) have a: "prefix_ci a v" and pw: "prefix_ci w x" and pb: "prefix_ci b (drop (length w) x)"
    by (simp_all add: prefix_ci_append x_def)
  from pw w(1) have "take (length w) x = w"
    by (auto simp: prefix_ci_def intro: map_lower_spaces)
  then have "x = w @ drop (length w) x" by (metis append_take_drop_id)
  moreover from pb have "rx_accepts (str_i b @ []) (drop (length w) x)"
    unfolding rx_accepts_str_i by simp
  ultimately have "rx_accepts (Star is_space # str_i b @ []) x"
    unfolding rx_accepts_Star using w(1) by blast
  with a show "rx_accepts (str_i a @ [Star is_space] @ str_i b) v"
    by (simp add: rx_accepts_str_i x_def)
qed

lemma marker_rx_iff:
  "rx_test (str_i a @ [Star is_space] @ str_i b) s \<longleftrightarrow>
     (\<exists>w. list_all is_space w \<and> contains_ci (a @ w @ b) s)"
  unfolding rx_test_iff contains_ci_iff marker_accepts_iff by blast

subsection \<open>The markers under the edits of the signing pipeline\<close>

text \<open>
  After the signer, the pipeline edits the buffer three times: the hexadecimal text of
  \<^verbatim>\<open>/Contents\<close> is replaced, the Catalog gets its \<^verbatim>\<open>/DSS\<close> entry, and the objects of
  the Document Security Store are put in front of the last \<^verbatim>\<open>xref\<close>. A signature marker
  that stands in the buffer before an edit stands in it afterwards: it cannot overlap
  the text that is replaced.
\<close>

lemma occurs_at_prefix_ci:
  "occurs_at lower m s i \<longleftrightarrow> i \<le> length s \<and> prefix_ci m (drop i s)"
  by (auto simp: occurs_at_def prefix_ci_def list_eq_iff_nth_eq)

lemma contains_ci_occurs: "contains_ci m s \<longleftrightarrow> (\<exists>i. occurs_at lower m s i)"
proof
  assume "contains_ci m s"
  then obtain u v where "s = u @ v" "prefix_ci m v" unfolding contains_ci_iff by blast
  then have "occurs_at lower m s (length u)" by (simp add: occurs_at_prefix_ci)
  then show "\<exists>i. occurs_at lower m s i" by blast
next
  assume "\<exists>i. occurs_at lower m s i"
  then obtain i where "i \<le> length s" "prefix_ci m (drop i s)"
    unfolding occurs_at_prefix_ci by blast
  then have "s = take i s @ drop i s \<and> prefix_ci m (drop i s)" by simp
  then show "contains_ci m s" unfolding contains_ci_iff by blast
qed

lemma occurs_at_transfer:
  assumes "occurs_at f m s i" "i' + length m \<le> length s'"
    and "\<And>j. j < length m \<Longrightarrow> s' ! (i' + j) = s ! (i + j)"
  shows "occurs_at f m s' i'"
  using assms by (simp add: occurs_at_def)

lemma occurs_before:
  assumes "occurs_at f m (P @ X @ T) i" "i + length m \<le> length P"
  shows "occurs_at f m (P @ Y @ T) i"
  using assms by (auto simp: occurs_at_def nth_append)

lemma occurs_after:
  assumes "occurs_at f m (P @ X @ T) i" "length P + length X \<le> i"
  shows "occurs_at f m (P @ Y @ T) (i - length X + length Y)"
proof (rule occurs_at_transfer[OF assms(1)])
  from assms show "i - length X + length Y + length m \<le> length (P @ Y @ T)"
    unfolding occurs_at_def by simp arith
next
  fix j assume "j < length m"
  from assms(2) have "i = length P + (length X + (i - length P - length X))" by simp
  then obtain d where d: "i = length P + (length X + d)" ..
  have a: "(P @ X @ T) ! (length P + (length X + (d + j))) = T ! (d + j)"
    by (simp only: nth_append_length_plus)
  have b: "(P @ Y @ T) ! (length P + (length Y + (d + j))) = T ! (d + j)"
    by (simp only: nth_append_length_plus)
  have e1: "i - length X + length Y + j = length P + (length Y + (d + j))"
    using d by simp
  have e2: "i + j = length P + (length X + (d + j))"
    using d by simp
  show "(P @ Y @ T) ! (i - length X + length Y + j) = (P @ X @ T) ! (i + j)"
    by (simp only: e1 e2 a b)
qed

lemma lower_eq_slash: "lower c = lower CHR ''/'' \<Longrightarrow> c = CHR ''/''"
  using lower_cases[of c] by (auto simp: lower_def)

lemma lower_eq_lt: "lower c = lower CHR ''<'' \<Longrightarrow> c = CHR ''<''"
  using lower_cases[of c] by (auto simp: lower_def)

lemma lower_eq_x: "lower c = lower CHR ''x'' \<Longrightarrow> c = CHR ''x'' \<or> c = CHR ''X''"
  by (auto simp: lower_def split: if_splits)

lemma slash_pos:
  assumes "CHR ''/'' \<notin> set x" "CHR ''/'' \<notin> set y"
    "j < length ((CHR ''/'' # x) @ (CHR ''/'' # y))" "0 < j"
    "((CHR ''/'' # x) @ (CHR ''/'' # y)) ! j = CHR ''/''"
  shows "j = Suc (length x)"
proof (rule ccontr)
  assume n: "j \<noteq> Suc (length x)"
  from assms(4) obtain j' where j': "j = Suc j'" by (cases j) auto
  show False
  proof (cases "j' < length x")
    case True
    then have "((CHR ''/'' # x) @ (CHR ''/'' # y)) ! j = x ! j'"
      by (simp add: j' nth_append)
    moreover from True have "x ! j' \<in> set x" by simp
    ultimately show False using assms(1,5) by simp
  next
    case False
    with n j' have "length x < j'" by simp
    then have "j' = length x + Suc (j' - length x - 1)" by simp
    then obtain d where d: "j' = length x + Suc d" ..
    then have "((CHR ''/'' # x) @ (CHR ''/'' # y)) ! j = y ! d"
      by (simp add: j' nth_append)
    moreover from assms(3) d j' have "d < length y" by simp
    then have "y ! d \<in> set y" by simp
    ultimately show False using assms(2,5) by simp
  qed
qed

lemma two_slash_overlap:
  assumes sx: "CHR ''/'' \<notin> set x" and sy: "CHR ''/'' \<notin> set y"
    and sx0: "CHR ''/'' \<notin> set x0" and sy0: "CHR ''/'' \<notin> set y0"
    and ne: "x \<noteq> []" "y \<noteq> []" "x0 \<noteq> []" "y0 \<noteq> []"
    and d1: "lower (hd x) \<noteq> lower (hd y0)" and d2: "lower (hd y) \<noteq> lower (hd x0)"
    and d3: "\<not> prefix_ci ((CHR ''/'' # x) @ (CHR ''/'' # y)) (((CHR ''/'' # x0) @ (CHR ''/'' # y0)) @ T)"
    and occ: "occurs_at lower ((CHR ''/'' # x) @ (CHR ''/'' # y)) (P @ ((CHR ''/'' # x0) @ (CHR ''/'' # y0)) @ T) i"
  shows "i + length ((CHR ''/'' # x) @ (CHR ''/'' # y)) \<le> length P \<or>
         length P + length ((CHR ''/'' # x0) @ (CHR ''/'' # y0)) \<le> i"
proof (rule ccontr)
  define m where "m = (CHR ''/'' # x) @ (CHR ''/'' # y)"
  define m0 where "m0 = (CHR ''/'' # x0) @ (CHR ''/'' # y0)"
  define s where "s = P @ m0 @ T"
  define k where "k = length P"
  assume "\<not> ?thesis"
  then have o1: "k < i + length m" and o2: "i < k + length m0"
    by (simp_all add: m_def m0_def k_def)
  from occ have len: "i + length m \<le> length s"
    and ch: "\<And>j. j < length m \<Longrightarrow> lower (s ! (i + j)) = lower (m ! j)"
    by (simp_all add: occurs_at_def m_def m0_def s_def)
  have s0: "\<And>j. j < length m0 \<Longrightarrow> s ! (k + j) = m0 ! j"
    by (simp add: s_def k_def nth_append)
  have lm: "length m = length x + length y + 2" and lm0: "length m0 = length x0 + length y0 + 2"
    by (simp_all add: m_def m0_def)
  have m_0: "m ! 0 = CHR ''/''" and m_1: "m ! Suc 0 = hd x"
    using ne by (simp_all add: m_def hd_conv_nth nth_append)
  have m0_0: "m0 ! 0 = CHR ''/''" and m0_1: "m0 ! Suc 0 = hd x0"
    using ne by (simp_all add: m0_def hd_conv_nth nth_append)
  have m_2: "m ! Suc (Suc (length x)) = hd y"
    using ne by (simp add: m_def hd_conv_nth nth_append)
  have m0_2: "m0 ! Suc (Suc (length x0)) = hd y0"
    using ne by (simp add: m0_def hd_conv_nth nth_append)
  consider "i = k" | "k < i" | "i < k" by linarith
  then show False
  proof cases
    case 1
    from occ have "prefix_ci m (drop i s)"
      by (simp add: occurs_at_prefix_ci m_def m0_def s_def)
    with 1 have "prefix_ci m (m0 @ T)" by (simp add: s_def k_def)
    with d3 show False by (simp add: m_def m0_def)
  next
    case 2
    define j where "j = i - k"
    from 2 o2 have j: "0 < j" "j < length m0" "i = k + j" by (simp_all add: j_def)
    from ch[of 0] lm have "lower (s ! i) = lower CHR ''/''" by (simp add: m_0)
    then have "s ! i = CHR ''/''" by (rule lower_eq_slash)
    with s0[OF j(2)] j(3) have "m0 ! j = CHR ''/''" by simp
    with slash_pos[OF sx0 sy0 _ j(1)] j(2) have jj: "j = Suc (length x0)"
      by (simp add: m0_def)
    with lm0 ne have "Suc j < length m0" by (cases y0) simp_all
    from s0[OF this] have "s ! (i + 1) = hd y0" by (simp add: j(3) jj m0_2)
    moreover from ch[of 1] lm have "lower (s ! (i + 1)) = lower (hd x)" by (simp add: m_1)
    ultimately show False using d1 by simp
  next
    case 3
    define j where "j = k - i"
    from 3 o1 have j: "0 < j" "j < length m" "k = i + j" by (simp_all add: j_def)
    from s0[of 0] lm0 have "s ! k = CHR ''/''" by (simp add: m0_0)
    with ch[OF j(2)] j(3) have "lower (m ! j) = lower CHR ''/''" by simp
    then have "m ! j = CHR ''/''" by (rule lower_eq_slash)
    with slash_pos[OF sx sy _ j(1)] j(2) have jj: "j = Suc (length x)"
      by (simp add: m_def)
    with lm ne have sj: "Suc j < length m" by (cases y) simp_all
    from s0[of 1] lm0 have "s ! (k + 1) = hd x0" by (simp add: m0_1)
    moreover from ch[OF sj] have "lower (s ! (k + 1)) = lower (hd y)"
      by (simp add: j(3) jj m_2)
    ultimately show False using d2 by simp
  qed
qed

lemma hasSig_occurs: "hasSig s \<longleftrightarrow> (\<exists>m i. sig_marker m \<and> occurs_at lower m s i)"
  unfolding hasSig_def sig_type_rx_def sig_ft_rx_def sig_subfilter_rx_def marker_rx_iff
    contains_ci_occurs sig_marker_def
  by blast

lemma not_space_slash: "\<not> is_space CHR ''/''"
  by (simp add: is_space_def)

lemma spaces_no_slash: "list_all is_space w \<Longrightarrow> CHR ''/'' \<notin> set w"
  using not_space_slash by (auto simp: list_all_iff)

lemma sig_marker_chars:
  assumes "sig_marker m" "c \<in> set m"
  shows "c \<noteq> CHR ''<'' \<and> c \<noteq> CHR ''>'' \<and> c \<noteq> CHR ''x'' \<and> c \<noteq> CHR ''X''"
proof -
  from assms obtain w where w: "list_all is_space w"
    and c: "c \<in> set ''/Type/Sig/FT/SubFilter/adbe.pkcs7'' \<or> c \<in> set w"
    by (auto simp: sig_marker_def)
  from c show ?thesis
  proof
    assume "c \<in> set ''/Type/Sig/FT/SubFilter/adbe.pkcs7''"
    then show ?thesis by auto
  next
    assume "c \<in> set w"
    with w have "is_space c" by (simp add: list_all_iff)
    then show ?thesis by (auto simp: is_space_def)
  qed
qed

lemma sig_marker_head: "sig_marker m \<Longrightarrow> 0 < length m \<and> m ! 0 = CHR ''/''"
  by (auto simp: sig_marker_def)

lemma no_common_start:
  "list_all is_space w \<Longrightarrow> list_all is_space w0 \<Longrightarrow>
   \<not> prefix_ci (w @ ''/Sig'') (w0 @ ''/Catalog'' @ T)"
proof (induction w arbitrary: w0)
  case Nil
  show ?case
  proof (cases w0)
    case Nil
    show ?thesis by (simp add: Nil prefix_ci_Cons lower_def)
  next
    case (Cons c w0')
    with Nil.prems have "is_space c" by simp
    with not_space_slash have "c \<noteq> CHR ''/''" by auto
    with lower_eq_slash[of c] show ?thesis by (auto simp: Cons prefix_ci_Cons)
  qed
next
  case (Cons x w)
  from Cons.prems have sx: "is_space x" by simp
  show ?case
  proof (cases w0)
    case Nil
    from sx not_space_slash have "x \<noteq> CHR ''/''" by auto
    with lower_space[OF sx, of "CHR ''/''"] show ?thesis by (auto simp: Nil prefix_ci_Cons)
  next
    case (Cons c w0')
    with Cons.prems Cons.IH[of w0'] show ?thesis by (auto simp: prefix_ci_Cons)
  qed
qed

lemma catalog_overlap:
  assumes m: "sig_marker m" and w0: "list_all is_space w0"
    and occ: "occurs_at lower m (P @ (''/Type'' @ w0 @ ''/Catalog'') @ T) i"
  shows "i + length m \<le> length P \<or> length P + length (''/Type'' @ w0 @ ''/Catalog'') \<le> i"
proof -
  from m obtain w where w: "list_all is_space w"
    and f: "m = ''/Type'' @ w @ ''/Sig'' \<or> m = ''/FT'' @ w @ ''/Sig'' \<or>
            m = ''/SubFilter'' @ w @ ''/adbe.pkcs7''"
    by (auto simp: sig_marker_def)
  have c0: "''/Type'' @ w0 @ ''/Catalog'' = (CHR ''/'' # ''Type'' @ w0) @ (CHR ''/'' # ''Catalog'')"
    by simp
  note sw = spaces_no_slash[OF w] and sw0 = spaces_no_slash[OF w0]
  from f consider (a) "m = (CHR ''/'' # ''Type'' @ w) @ (CHR ''/'' # ''Sig'')"
    | (b) "m = (CHR ''/'' # ''FT'' @ w) @ (CHR ''/'' # ''Sig'')"
    | (c) "m = (CHR ''/'' # ''SubFilter'' @ w) @ (CHR ''/'' # ''adbe.pkcs7'')"
    by auto
  then show ?thesis
  proof cases
    case a
    have d3: "\<not> prefix_ci ((CHR ''/'' # ''Type'' @ w) @ (CHR ''/'' # ''Sig''))
        (((CHR ''/'' # ''Type'' @ w0) @ (CHR ''/'' # ''Catalog'')) @ T)"
      using no_common_start[OF w w0, of T] by (simp add: prefix_ci_Cons)
    from two_slash_overlap[OF _ _ _ _ _ _ _ _ _ _ d3 occ[unfolded a c0]] sw sw0
    show ?thesis unfolding a c0 by (simp add: lower_def)
  next
    case b
    have d3: "\<not> prefix_ci ((CHR ''/'' # ''FT'' @ w) @ (CHR ''/'' # ''Sig''))
        (((CHR ''/'' # ''Type'' @ w0) @ (CHR ''/'' # ''Catalog'')) @ T)"
      by (simp add: prefix_ci_Cons lower_def)
    from two_slash_overlap[OF _ _ _ _ _ _ _ _ _ _ d3 occ[unfolded b c0]] sw sw0
    show ?thesis unfolding b c0 by (simp add: lower_def)
  next
    case c
    have d3: "\<not> prefix_ci ((CHR ''/'' # ''SubFilter'' @ w) @ (CHR ''/'' # ''adbe.pkcs7''))
        (((CHR ''/'' # ''Type'' @ w0) @ (CHR ''/'' # ''Catalog'')) @ T)"
      by (simp add: prefix_ci_Cons lower_def)
    from two_slash_overlap[OF _ _ _ _ _ _ _ _ _ _ d3 occ[unfolded c c0]] sw sw0
    show ?thesis unfolding c c0 by (simp add: lower_def)
  qed
qed

lemma rx_exec_split:
  "rx_exec r s = Some (a, ms, t) \<Longrightarrow> \<exists>P. s = P @ a \<and> rx_match r a = Some (ms, t)"
proof (induction s)
  case Nil
  then show ?case by (auto split: option.splits)
next
  case (Cons c cs)
  show ?case
  proof (cases "rx_match r (c # cs)")
    case None
    with Cons.prems have "rx_exec r cs = Some (a, ms, t)" by simp
    from Cons.IH[OF this] obtain P where "cs = P @ a" "rx_match r a = Some (ms, t)" by blast
    then have "c # cs = (c # P) @ a \<and> rx_match r a = Some (ms, t)" by simp
    then show ?thesis by blast
  next
    case (Some x)
    with Cons.prems have "c # cs = [] @ a \<and> rx_match r a = Some (ms, t)"
      by (cases x) auto
    then show ?thesis by blast
  qed
qed

lemma rx_match_One:
  "rx_match (One p # r) s = Some (ms, t) \<Longrightarrow>
   \<exists>c cs. s = c # cs \<and> p c \<and> rx_match r cs = Some (ms, t)"
  by (cases s) (auto split: if_splits)

lemma rx_match_str:
  "rx_match (str A @ r) s = Some (ms, t) \<Longrightarrow> \<exists>s'. s = A @ s' \<and> rx_match r s' = Some (ms, t)"
proof (induction A arbitrary: s)
  case Nil
  then show ?case by (simp add: str_def)
next
  case (Cons x A)
  from Cons.prems have "rx_match (One (\<lambda>c. c = x) # str A @ r) s = Some (ms, t)"
    by (simp add: str_def lit_def)
  from rx_match_One[OF this] obtain cs where s: "s = x # cs"
    and m: "rx_match (str A @ r) cs = Some (ms, t)" by blast
  from Cons.IH[OF m] s show ?case by auto
qed

lemma rx_match_Star:
  "rx_match (Star p # r) s = Some (ms, t) \<Longrightarrow>
   \<exists>w s'. s = w @ s' \<and> list_all p w \<and> rx_match r s' = Some (ms, t)"
proof (induction s)
  case Nil
  then have n: "rx_match r [] = Some (ms, t)" by simp
  show ?case by (rule exI[of _ "[]"], rule exI[of _ "[]"]) (simp add: n)
next
  case (Cons c cs)
  show ?case
  proof (cases "p c \<and> rx_match (Star p # r) cs = Some (ms, t)")
    case True
    then have "\<exists>w s'. cs = w @ s' \<and> list_all p w \<and> rx_match r s' = Some (ms, t)"
      by (intro Cons.IH) simp
    then obtain w s' where f: "cs = w @ s'" "list_all p w" "rx_match r s' = Some (ms, t)"
      by (elim exE conjE)
    show ?thesis by (rule exI[of _ "c # w"], rule exI[of _ s']) (simp add: f True)
  next
    case False
    with Cons.prems have n: "rx_match r (c # cs) = Some (ms, t)"
      by (auto split: if_splits option.splits)
    show ?thesis by (rule exI[of _ "[]"], rule exI[of _ "c # cs"]) (simp add: n)
  qed
qed

lemma rx_match_Plus:
  "rx_match (Plus p # r) s = Some (ms, t) \<Longrightarrow>
   \<exists>c w s'. s = c # w @ s' \<and> p c \<and> list_all p w \<and> rx_match r s' = Some (ms, t)"
proof (cases s)
  case Nil
  assume "rx_match (Plus p # r) s = Some (ms, t)"
  with Nil show ?thesis by simp
next
  case (Cons c cs)
  assume "rx_match (Plus p # r) s = Some (ms, t)"
  with Cons have pc: "p c" and "rx_match (Star p # r) cs = Some (ms, t)"
    by (auto split: if_splits)
  from rx_match_Star[OF this(2)] pc Cons show ?thesis by auto
qed

lemma rx_match_Mark:
  "rx_match (Mark # r) s = Some (ms, t) \<Longrightarrow> \<exists>ms'. ms = s # ms' \<and> rx_match r s = Some (ms', t)"
  by (auto split: option.splits)

lemma catalog_match:
  assumes "rx_exec catalog_rx s = Some (a, ms, t)"
  shows "\<exists>P w0. list_all is_space w0 \<and> s = P @ (''/Type'' @ w0 @ ''/Catalog'') @ t \<and>
           a = (''/Type'' @ w0 @ ''/Catalog'') @ t"
proof -
  from rx_exec_split[OF assms] obtain P where P: "s = P @ a"
    and m: "rx_match (str ''/Type'' @ Star is_space # str ''/Catalog'' @ []) a = Some (ms, t)"
    by (auto simp: catalog_rx_def)
  from rx_match_str[OF m] obtain s1 where s1: "a = ''/Type'' @ s1"
    and m1: "rx_match (Star is_space # str ''/Catalog'' @ []) s1 = Some (ms, t)" by blast
  from rx_match_Star[OF m1] obtain w0 s2 where s2: "s1 = w0 @ s2" and w0: "list_all is_space w0"
    and m2: "rx_match (str ''/Catalog'' @ []) s2 = Some (ms, t)" by blast
  from rx_match_str[OF m2] obtain s3 where s3: "s2 = ''/Catalog'' @ s3"
    and m3: "rx_match [] s3 = Some (ms, t)" by blast
  from m3 have "s3 = t" by simp
  with s1 s2 s3 have "a = (''/Type'' @ w0 @ ''/Catalog'') @ t" by simp
  with P w0 show ?thesis by blast
qed

lemma contents_capture:
  assumes "rx_exec contents_rx s = Some (a, cs, t)"
  shows "list_all is_hex (between (cs ! 0) (cs ! Suc 0))"
proof -
  from rx_exec_split[OF assms] have
    m: "rx_match (str ''/Contents'' @ [Star is_space, One (\<lambda>x. x = CHR ''<''), Mark, Plus is_hex, Mark,
          One (\<lambda>x. x = CHR ''>'')]) a = Some (cs, t)"
    by (auto simp: contents_rx_def lit_def)
  from rx_match_str[OF m] obtain s1 where
    m1: "rx_match [Star is_space, One (\<lambda>x. x = CHR ''<''), Mark, Plus is_hex, Mark,
          One (\<lambda>x. x = CHR ''>'')] s1 = Some (cs, t)" by blast
  from rx_match_Star[OF m1] obtain s2 where
    m2: "rx_match [One (\<lambda>x. x = CHR ''<''), Mark, Plus is_hex, Mark, One (\<lambda>x. x = CHR ''>'')] s2 =
          Some (cs, t)" by blast
  from rx_match_One[OF m2] obtain s3 where
    m3: "rx_match [Mark, Plus is_hex, Mark, One (\<lambda>x. x = CHR ''>'')] s3 = Some (cs, t)" by blast
  from rx_match_Mark[OF m3] obtain cs1 where cs: "cs = s3 # cs1"
    and m4: "rx_match [Plus is_hex, Mark, One (\<lambda>x. x = CHR ''>'')] s3 = Some (cs1, t)" by blast
  from rx_match_Plus[OF m4] obtain c h s5 where s3: "s3 = c # h @ s5" and hx: "is_hex c" "list_all is_hex h"
    and m5: "rx_match [Mark, One (\<lambda>x. x = CHR ''>'')] s5 = Some (cs1, t)" by blast
  from rx_match_Mark[OF m5] obtain cs2 where cs1: "cs1 = s5 # cs2" by blast
  have "between (cs ! 0) (cs ! Suc 0) = c # h" by (simp add: cs cs1 s3 between_def)
  with hx show ?thesis by simp
qed

lemma extractSignatureFromPDF_hex:
  "extractSignatureFromPDF s = Some ex \<Longrightarrow> list_all is_hex (signatureHex ex)"
proof -
  assume "extractSignatureFromPDF s = Some ex"
  then obtain a cs t where c: "rx_exec contents_rx s = Some (a, cs, t)"
    and h: "signatureHex ex = between (cs ! 0) (cs ! Suc 0)"
    by (auto simp: extractSignatureFromPDF_def split: option.splits)
  from contents_capture[OF c] h show ?thesis by simp
qed

lemma hex_no_slash: "list_all is_hex h \<Longrightarrow> CHR ''/'' \<notin> set h"
  by (auto simp: list_all_iff is_hex_def)

lemma replace_first_cases:
  "replace_first pat rep s = s \<or>
   (\<exists>P T. s = P @ pat @ T \<and> replace_first pat rep s = P @ rep @ T)"
proof (induction s)
  case Nil
  have "pat = [] \<Longrightarrow> [] = [] @ pat @ [] \<and> rep = [] @ rep @ []" by simp
  then show ?case by (cases "pat = []") auto
next
  case (Cons c cs)
  show ?case
  proof (cases "take (length pat) (c # cs) = pat")
    case True
    have "c # cs = take (length pat) (c # cs) @ drop (length pat) (c # cs)"
      by (simp only: append_take_drop_id)
    then have "c # cs = [] @ pat @ drop (length pat) (c # cs)"
      by (simp only: True append_Nil)
    moreover from True have "replace_first pat rep (c # cs) = [] @ rep @ drop (length pat) (c # cs)"
      by simp
    ultimately show ?thesis by blast
  next
    case False
    from Cons.IH show ?thesis
    proof
      assume "replace_first pat rep cs = cs"
      with False show ?thesis by simp
    next
      assume "\<exists>P T. cs = P @ pat @ T \<and> replace_first pat rep cs = P @ rep @ T"
      then obtain P T where "cs = P @ pat @ T" "replace_first pat rep cs = P @ rep @ T" by blast
      with False have "c # cs = (c # P) @ pat @ T \<and>
          replace_first pat rep (c # cs) = (c # P) @ rep @ T" by simp
      then show ?thesis by blast
    qed
  qed
qed

lemma hasSig_frame:
  assumes sig: "hasSig (P @ X @ T)"
    and apart: "\<And>m i. sig_marker m \<Longrightarrow> occurs_at lower m (P @ X @ T) i \<Longrightarrow>
                  i + length m \<le> length P \<or> length P + length X \<le> i"
  shows "hasSig (P @ Y @ T)"
proof -
  from sig obtain m i where m: "sig_marker m" and occ: "occurs_at lower m (P @ X @ T) i"
    unfolding hasSig_occurs by blast
  from apart[OF m occ] show ?thesis
  proof
    assume "i + length m \<le> length P"
    from occurs_before[OF occ this] m show ?thesis unfolding hasSig_occurs by blast
  next
    assume "length P + length X \<le> i"
    from occurs_after[OF occ this] m show ?thesis unfolding hasSig_occurs by blast
  qed
qed

lemma occurs_char:
  assumes "occurs_at lower m s i" "i \<le> k" "k < i + length m"
  shows "lower (s ! k) = lower (m ! (k - i))"
proof -
  from assms(2,3) have "k - i < length m" by simp
  with assms(1) have "lower (s ! (i + (k - i))) = lower (m ! (k - i))"
    unfolding occurs_at_def by blast
  with assms(2) show ?thesis by simp
qed

lemma hasSig_replace_contents:
  assumes sig: "hasSig s" and old: "CHR ''/'' \<notin> set old"
  shows "hasSig (replace_first (''/Contents <'' @ old @ ''>'') (''/Contents <'' @ new @ ''>'') s)"
proof -
  from replace_first_cases[of "''/Contents <'' @ old @ ''>''" "''/Contents <'' @ new @ ''>''" s]
  show ?thesis
  proof
    assume "replace_first (''/Contents <'' @ old @ ''>'') (''/Contents <'' @ new @ ''>'') s = s"
    with sig show ?thesis by simp
  next
    assume "\<exists>P T. s = P @ (''/Contents <'' @ old @ ''>'') @ T \<and>
      replace_first (''/Contents <'' @ old @ ''>'') (''/Contents <'' @ new @ ''>'') s =
        P @ (''/Contents <'' @ new @ ''>'') @ T"
    then obtain P T where s: "s = P @ (''/Contents <'' @ old @ ''>'') @ T"
      and r: "replace_first (''/Contents <'' @ old @ ''>'') (''/Contents <'' @ new @ ''>'') s =
        P @ (''/Contents <'' @ new @ ''>'') @ T" by blast
    define P' where "P' = P @ ''/Contents <''"
    define T' where "T' = ''>'' @ T"
    have s': "s = P' @ old @ T'" and r': "P @ (''/Contents <'' @ new @ ''>'') @ T = P' @ new @ T'"
      by (simp_all add: s P'_def T'_def)
    have lt: "0 < length P'" "(P' @ old @ T') ! (length P' - 1) = CHR ''<''"
      by (simp_all add: P'_def nth_append)
    have "hasSig (P' @ new @ T')"
    proof (rule hasSig_frame)
      from sig show "hasSig (P' @ old @ T')" by (simp add: s')
    next
      fix m i assume m: "sig_marker m" and occ: "occurs_at lower m (P' @ old @ T') i"
      show "i + length m \<le> length P' \<or> length P' + length old \<le> i"
      proof (rule ccontr)
        assume "\<not> ?thesis"
        then have o: "length P' < i + length m" "i < length P' + length old" by simp_all
        show False
        proof (cases "i < length P'")
          case True
          with o lt have "i \<le> length P' - 1" "length P' - 1 < i + length m" by simp_all
          from occurs_char[OF occ this] lt
          have "lower (m ! (length P' - 1 - i)) = lower CHR ''<''" by simp
          then have "m ! (length P' - 1 - i) = CHR ''<''" by (rule lower_eq_lt)
          moreover from o True have "m ! (length P' - 1 - i) \<in> set m" by simp
          ultimately show False using sig_marker_chars[OF m] by metis
        next
          case False
          define d where "d = i - length P'"
          from False o have d: "i = length P' + d" "d < length old" by (simp_all add: d_def)
          have "(P' @ old @ T') ! (length P' + d) = (old @ T') ! d"
            by (simp only: nth_append_length_plus)
          with d have "(P' @ old @ T') ! i = old ! d" by (simp add: nth_append)
          with d have mem: "(P' @ old @ T') ! i \<in> set old" by simp
          from sig_marker_head[OF m] have h: "0 < length m" "m ! 0 = CHR ''/''" by simp_all
          from occurs_char[OF occ, of i] h have "lower ((P' @ old @ T') ! i) = lower CHR ''/''"
            by simp
          then have "(P' @ old @ T') ! i = CHR ''/''" by (rule lower_eq_slash)
          with mem old show False by simp
        qed
      qed
    qed
    with r r' show ?thesis by simp
  qed
qed

lemma hasSig_replaceSignatureInPDF:
  assumes "hasSig s" "CHR ''/'' \<notin> set old"
  shows "hasSig (replaceSignatureInPDF s old new)"
  unfolding replaceSignatureInPDF_def Let_def
  by (cases "length old < length (toString_hex new)")
     (simp_all only: if_True if_False assms hasSig_replace_contents[OF assms])

lemma hasSig_addTimestampToPDF:
  "hasSig s \<Longrightarrow> hasSig (fst (addTimestampToPDF R net s url log))"
  by (auto simp: addTimestampToPDF_def Let_def split: option.splits prod.splits sum.splits
      intro!: hasSig_replaceSignatureInPDF hex_no_slash extractSignatureFromPDF_hex)

lemma hasSig_catalog_patch:
  assumes "hasSig s"
  shows "hasSig (rx_replace_first catalog_rx rep s)"
proof (cases "rx_exec catalog_rx s")
  case None
  with assms show ?thesis by (simp add: rx_replace_first_def)
next
  case (Some x)
  then obtain a ms t where x: "rx_exec catalog_rx s = Some (a, ms, t)" by (cases x) auto
  from catalog_match[OF x] obtain P w0 where w0: "list_all is_space w0"
    and s: "s = P @ (''/Type'' @ w0 @ ''/Catalog'') @ t"
    and a: "a = (''/Type'' @ w0 @ ''/Catalog'') @ t" by blast
  have "take (length s - length a) s = P" by (simp add: s a)
  with x have r: "rx_replace_first catalog_rx rep s = P @ rep @ t"
    by (simp add: rx_replace_first_def)
  have "hasSig (P @ rep @ t)"
  proof (rule hasSig_frame)
    from assms show "hasSig (P @ (''/Type'' @ w0 @ ''/Catalog'') @ t)" by (simp add: s)
  next
    fix m i assume m: "sig_marker m"
      and occ: "occurs_at lower m (P @ (''/Type'' @ w0 @ ''/Catalog'') @ t) i"
    show "i + length m \<le> length P \<or> length P + length (''/Type'' @ w0 @ ''/Catalog'') \<le> i"
      by (rule catalog_overlap[OF m w0 occ])
  qed
  with r show ?thesis by simp
qed

lemma lastIndexOf_xref:
  "lastIndexOf ''xref'' s = Some i \<Longrightarrow> i < length s \<and> s ! i = CHR ''x''"
proof (induction s arbitrary: i)
  case Nil
  then show ?case by simp
next
  case (Cons c cs)
  then show ?case by (cases "lastIndexOf ''xref'' cs") (auto split: if_splits)
qed

lemma hasSig_insert:
  assumes sig: "hasSig s" and i: "i < length s" "s ! i = CHR ''x''"
  shows "hasSig (take i s @ Y @ drop i s)"
proof (rule hasSig_frame[where X = "[]"])
  from sig show "hasSig (take i s @ [] @ drop i s)" by simp
next
  fix m k assume m: "sig_marker m" and occ: "occurs_at lower m (take i s @ [] @ drop i s) k"
  then have occ': "occurs_at lower m s k" by simp
  show "k + length m \<le> length (take i s) \<or> length (take i s) + length ([]::string) \<le> k"
  proof (rule ccontr)
    assume "\<not> ?thesis"
    with i have o: "k \<le> i" "i < k + length m" by simp_all
    from occurs_char[OF occ' o] i have "lower (m ! (i - k)) = lower CHR ''x''" by simp
    then have "m ! (i - k) = CHR ''x'' \<or> m ! (i - k) = CHR ''X''" by (rule lower_eq_x)
    moreover from o have "m ! (i - k) \<in> set m" by simp
    ultimately show False using sig_marker_chars[OF m] by metis
  qed
qed

lemma hasSig_embedDSS:
  assumes sig: "hasSig s"
  shows "hasSig (embedDSS R s ocspResponses certs)"
proof (cases "embedDSS_body R s ocspResponses certs")
  case (Inl failure)
  with sig show ?thesis by (simp add: embedDSS_def)
next
  case (Inr newPdf)
  then obtain dssObjects dssNum i where
    x: "lastIndexOf ''xref''
          (rx_replace_first catalog_rx (''/Type /Catalog /DSS '' @ String_of R dssNum @ '' 0 R'') s) =
        Some i"
    and n: "newPdf =
        take i (rx_replace_first catalog_rx (''/Type /Catalog /DSS '' @ String_of R dssNum @ '' 0 R'') s) @
        (join [newline] (map (render_object R) dssObjects) @ [newline]) @
        drop i (rx_replace_first catalog_rx (''/Type /Catalog /DSS '' @ String_of R dssNum @ '' 0 R'') s)"
    by (auto simp: embedDSS_body_def Let_def split: sum.splits option.splits prod.splits if_splits)
  from hasSig_catalog_patch[OF sig] lastIndexOf_xref[OF x]
  have "hasSig newPdf" unfolding n by (intro hasSig_insert) simp_all
  with Inr show ?thesis by (simp add: embedDSS_def)
qed

lemma hasSig_ltv_step: "hasSig s \<Longrightarrow> hasSig (fst (ltv_step R net p12 s log))"
  by (auto simp: ltv_step_def Let_def hasSig_embedDSS split: list.splits prod.splits)

lemma hasSig_sign_pdf_endpoint:
  assumes signer: "\<And>b p pw s. sign R b p pw = Inr s \<Longrightarrow> hasSig s"
    and out: "fst (sign_pdf_endpoint R net rq log) = Download out"
  shows "hasSig out"
proof -
  from out obtain pdf p12Buffer where up: "pdf_upload rq = Some pdf" "certificate_upload rq = Some p12Buffer"
    by (auto simp: sign_pdf_endpoint_def split: option.splits)
  define certInfo where "certInfo = parseP12Certificate R p12Buffer (password rq)"
  from out up have ok: "succeeded certInfo"
    by (auto simp: sign_pdf_endpoint_def Let_def certInfo_def split: if_splits)
  from out up ok obtain holder signedPdf where
    sg: "sign R holder p12Buffer (password rq) = Inr signedPdf"
    and o: "fst (case addTimestampToPDF R net signedPdf ''http://freetsa.org/tsr'' log of
               (newSignedPdf, log') \<Rightarrow>
                 (let signedPdf' = (if newSignedPdf \<noteq> [] then newSignedPdf else signedPdf) in
                  case map_of certInfo ''p12'' of
                    Some (JPkcs12 p12) \<Rightarrow>
                      (case ltv_step R net p12 signedPdf' log' of
                         (signedPdf'', log'') \<Rightarrow> (Download signedPdf'', log''))
                  | _ \<Rightarrow> (Download signedPdf', log'))) = Download out"
    by (auto simp: sign_pdf_endpoint_def Let_def certInfo_def split: sum.splits)
  from signer[OF sg] have h0: "hasSig signedPdf" .
  obtain newSignedPdf log' where ts: "addTimestampToPDF R net signedPdf ''http://freetsa.org/tsr'' log = (newSignedPdf, log')"
    by (cases "addTimestampToPDF R net signedPdf ''http://freetsa.org/tsr'' log") auto
  from hasSig_addTimestampToPDF[OF h0, of R net "''http://freetsa.org/tsr''" log] ts
  have h1: "hasSig newSignedPdf" by simp
  define signedPdf' where "signedPdf' = (if newSignedPdf \<noteq> [] then newSignedPdf else signedPdf)"
  from h0 h1 have h2: "hasSig signedPdf'" by (simp add: signedPdf'_def)
  show ?thesis
  proof (cases "\<exists>p12. map_of certInfo ''p12'' = Some (JPkcs12 p12)")
    case True
    then obtain p12 where p: "map_of certInfo ''p12'' = Some (JPkcs12 p12)" by blast
    with o ts have "fst (ltv_step R net p12 signedPdf' log') = out"
      by (auto simp: Let_def signedPdf'_def split: prod.splits if_splits)
    with hasSig_ltv_step[OF h2, of R net p12 log'] show ?thesis by simp
  next
    case False
    with o ts have "signedPdf' = out"
      by (auto simp: Let_def signedPdf'_def split: option.splits json.splits)
    with h2 show ?thesis by simp
  qed
qed

subsection \<open>The signature markers\<close>

text \<open>
  Claim C7, as the code has it. \<open>hasSig\<close> holds exactly when the buffer contains, letters
  compared without case, \<^verbatim>\<open>/Type\<close>, \<^verbatim>\<open>/FT\<close> or \<^verbatim>\<open>/SubFilter\<close>, then any run of
  white space (also the empty one), then \<^verbatim>\<open>/Sig\<close>, \<^verbatim>\<open>/Sig\<close> or \<^verbatim>\<open>/adbe.pkcs7\<close>.
  In particular every buffer that the signing endpoint sends for download is reported
  signed, when the signer of the library (\<^verbatim>\<open>signer.sign\<close>) returns buffers that contain
  one of these markers: neither the timestamp step nor the embedding of the Document
  Security Store removes a marker.
\<close>

theorem hasSig_iff_markers:
  "(hasSig pdfText \<longleftrightarrow>
     (\<exists>w. list_all is_space w \<and>
        (contains_ci (''/Type'' @ w @ ''/Sig'') pdfText \<or>
         contains_ci (''/FT'' @ w @ ''/Sig'') pdfText \<or>
         contains_ci (''/SubFilter'' @ w @ ''/adbe.pkcs7'') pdfText))) \<and>
   ((\<forall>b p12Buffer passphrase signedPdf.
        sign R b p12Buffer passphrase = Inr signedPdf \<longrightarrow>
        (\<exists>w. list_all is_space w \<and>
           (contains_ci (''/Type'' @ w @ ''/Sig'') signedPdf \<or>
            contains_ci (''/FT'' @ w @ ''/Sig'') signedPdf \<or>
            contains_ci (''/SubFilter'' @ w @ ''/adbe.pkcs7'') signedPdf))) \<longrightarrow>
    (\<forall>net rq log out.
        fst (sign_pdf_endpoint R net rq log) = Download out \<longrightarrow> hasSig out))"
proof -
  have iff: "hasSig s \<longleftrightarrow>
     (\<exists>w. list_all is_space w \<and>
        (contains_ci (''/Type'' @ w @ ''/Sig'') s \<or>
         contains_ci (''/FT'' @ w @ ''/Sig'') s \<or>
         contains_ci (''/SubFilter'' @ w @ ''/adbe.pkcs7'') s))" for s
    unfolding hasSig_def sig_type_rx_def sig_ft_rx_def sig_subfilter_rx_def marker_rx_iff
    by blast
  have "hasSig out"
    if signer: "\<forall>b p12Buffer passphrase signedPdf.
        sign R b p12Buffer passphrase = Inr signedPdf \<longrightarrow>
        (\<exists>w. list_all is_space w \<and>
           (contains_ci (''/Type'' @ w @ ''/Sig'') signedPdf \<or>
            contains_ci (''/FT'' @ w @ ''/Sig'') signedPdf \<or>
            contains_ci (''/SubFilter'' @ w @ ''/adbe.pkcs7'') signedPdf))"
      and out: "fst (sign_pdf_endpoint R net rq log) = Download out"
    for net rq log out
  proof (rule hasSig_sign_pdf_endpoint[OF _ out])
    fix b p pw s assume "sign R b p pw = Inr s"
    with signer show "hasSig s" unfolding iff by blast
  qed
  with iff show ?thesis by blast
qed

text \<open>
  The theorem at a signer that appends the dictionary \<^verbatim>\<open><< /Type /Sig >>\<close>, for an upload
  with a Catalog and an \<^verbatim>\<open>xref\<close>, so that the Document Security Store is embedded: what
  the endpoint sends is reported signed.
\<close>

theorem hasSig_iff_markers_witness:
  "(case fst (sign_pdf_endpoint signing_runtime unreachable
       \<lparr>pdf_upload = Some ''/Type /Catalog xref'', certificate_upload = Some ''p12'',
        password = ''secret'', reason = [], location = []\<rparr> []) of
      Download out \<Rightarrow> hasSig out \<and> contains_ci ''/DSS 3 0 R'' out
    | Json status body \<Rightarrow> False)"
proof -
  let ?rq = "\<lparr>pdf_upload = Some ''/Type /Catalog xref'', certificate_upload = Some ''p12'',
        password = ''secret'', reason = [], location = []\<rparr>"
  let ?out = "''/Type /Catalog /DSS 3 0 R 1 0 obj'' @ [newline] @ ''<< /Length 2 >>'' @ [newline] @
     ''stream'' @ [newline] @ ''01'' @ [newline] @ ''endstream'' @ [newline] @ ''endobj'' @
     [newline] @ [newline] @ ''2 0 obj'' @ [newline] @ ''[ 1 0 R ]'' @ [newline] @ ''endobj'' @
     [newline] @ [newline] @ ''3 0 obj'' @ [newline] @ ''<< /Type /DSS /Certs 2 0 R >>'' @
     [newline] @ ''endobj'' @ [newline] @ [newline] @ ''xref<< /Type /Sig >>''"
  have sp: "list_all is_space '' ''" by (simp add: is_space_def)
  have dict: "prefix_ci (''/Type'' @ '' '' @ ''/Sig'') ''/Type /Sig >>''" by code_simp
  have c: "contains_ci (''/Type'' @ '' '' @ ''/Sig'') (b @ ''<< /Type /Sig >>'')" for b
  proof -
    have "b @ ''<< /Type /Sig >>'' = (b @ ''<< '') @ ''/Type /Sig >>''" by simp
    with dict show ?thesis unfolding contains_ci_iff by blast
  qed
  have marked: "\<exists>w. list_all is_space w \<and>
           (contains_ci (''/Type'' @ w @ ''/Sig'') (b @ ''<< /Type /Sig >>'') \<or>
            contains_ci (''/FT'' @ w @ ''/Sig'') (b @ ''<< /Type /Sig >>'') \<or>
            contains_ci (''/SubFilter'' @ w @ ''/adbe.pkcs7'') (b @ ''<< /Type /Sig >>''))" for b
    using sp c[of b] by blast
  have sg: "sign signing_runtime b p12Buffer passphrase = Inr (b @ ''<< /Type /Sig >>'')"
    for b p12Buffer passphrase
    by (simp add: signing_runtime_def)
  have signer: "\<forall>b p12Buffer passphrase signedPdf.
        sign signing_runtime b p12Buffer passphrase = Inr signedPdf \<longrightarrow>
        (\<exists>w. list_all is_space w \<and>
           (contains_ci (''/Type'' @ w @ ''/Sig'') signedPdf \<or>
            contains_ci (''/FT'' @ w @ ''/Sig'') signedPdf \<or>
            contains_ci (''/SubFilter'' @ w @ ''/adbe.pkcs7'') signedPdf))"
  proof (intro allI impI)
    fix b p12Buffer passphrase signedPdf
    assume "sign signing_runtime b p12Buffer passphrase = Inr signedPdf"
    with sg[of b p12Buffer passphrase] have e: "signedPdf = b @ ''<< /Type /Sig >>''" by simp
    show "\<exists>w. list_all is_space w \<and>
           (contains_ci (''/Type'' @ w @ ''/Sig'') signedPdf \<or>
            contains_ci (''/FT'' @ w @ ''/Sig'') signedPdf \<or>
            contains_ci (''/SubFilter'' @ w @ ''/adbe.pkcs7'') signedPdf)"
      unfolding e by (rule marked)
  qed
  have out: "fst (sign_pdf_endpoint signing_runtime unreachable ?rq []) = Download ?out"
    by code_simp
  have dss: "contains_ci ''/DSS 3 0 R'' ?out" by code_simp
  from hasSig_iff_markers[of "[]" signing_runtime] signer out have "hasSig ?out" by blast
  with out dss show ?thesis by simp
qed

text \<open>
  The claim as the specification words it ("true if and only if the buffer contains
  \<^verbatim>\<open>/Type /Sig\<close>, \<^verbatim>\<open>/FT /Sig\<close> or \<^verbatim>\<open>/SubFilter /adbe.pkcs7\<close>") fails on a
  dictionary written without spaces: the pattern's \<^verbatim>\<open>\s*\<close> accepts it.
\<close>

theorem hasSig_compact_dictionary:
  "hasSig ''<</Type/Sig>>'' \<and>
   \<not> (contains_ci ''/Type /Sig''
          ''<</Type/Sig>>'' \<or>
        contains_ci ''/FT /Sig''
          ''<</Type/Sig>>'' \<or>
        contains_ci ''/SubFilter /adbe.pkcs7''
          ''<</Type/Sig>>'')"
  by code_simp

subsection \<open>Long-term-validation detection\<close>

text \<open>A match consumes at least one character for each atom taken once or under \<^verbatim>\<open>+\<close>.\<close>


fun min_len :: "regex \<Rightarrow> nat" where
  "min_len [] = 0"
| "min_len (One p # r) = Suc (min_len r)"
| "min_len (Plus p # r) = Suc (min_len r)"
| "min_len (i # r) = min_len r"

lemma rx_match_length:
  "rx_match r s = Some (ms, t) \<Longrightarrow> length t + min_len r \<le> length s"
proof (induction r s arbitrary: ms t rule: rx_match.induct)
  case (6 p r c cs)
  then show ?case by (fastforce split: if_splits option.splits)
next
  case (8 p r c cs)
  then show ?case by (fastforce split: if_splits option.splits)
next
  case (10 p r c cs)
  then show ?case by (fastforce split: if_splits option.splits)
qed (fastforce split: if_splits option.splits)+

lemma rx_exec_length:
  "rx_exec r s = Some (a, ms, t) \<Longrightarrow> length t + min_len r \<le> length s"
proof (induction s)
  case Nil
  then show ?case by (auto split: option.splits dest: rx_match_length)
next
  case (Cons c cs)
  then show ?case by (fastforce split: option.splits dest: rx_match_length)
qed

lemma min_len_stream_rx: "0 < min_len stream_rx"
  by (simp add: stream_rx_def str_def lit_def)

lemma scan_streams_eq:
  "scan_streams inflate n s = list_ex (stream_hit inflate) (take (50 - n) (stream_objects s))"
proof (induction inflate n s rule: scan_streams.induct)
  case (1 inflate n s)
  show ?case
  proof (cases "rx_exec stream_rx s")
    case None
    then show ?thesis by (subst scan_streams.simps, subst stream_objects.simps) simp
  next
    case (Some x)
    then obtain a ms t where x: "rx_exec stream_rx s = Some (a, ms, t)" by (cases x) auto
    then have lt: "length t < length s"
      using rx_exec_length[OF x] min_len_stream_rx by linarith
    show ?thesis
    proof (cases "n < 50")
      case True
      then obtain k where k: "50 - n = Suc k" "50 - (n + 1) = k" by (cases "50 - n") auto
      show ?thesis
      proof (cases "stream_hit inflate (between (ms ! 0) (ms ! 1), between (ms ! 2) (ms ! 3))")
        case hit: True
        then show ?thesis using x True k lt
          by (subst scan_streams.simps, subst stream_objects.simps) simp
      next
        case False
        with "1.IH"[OF x refl refl True False] show ?thesis using x True k lt
          by (subst scan_streams.simps, subst stream_objects.simps) simp
      qed
    next
      case False
      then show ?thesis using x
        by (subst scan_streams.simps) simp
    qed
  qed
qed


text \<open>
  For a buffer with \<open>hasSig\<close>, the sequence of tests of \<^verbatim>\<open>checkPdfSignature\<close> comes to
  the disjunction of its four tests; the third looks at the first 50 matches of the
  stream pattern.
\<close>

lemma checkPdfSignature_sequence:
  "hasSig pdfBuffer \<Longrightarrow>
   checkPdfSignature inflate pdfBuffer =
     Signed (rx_test dss_ref_rx pdfBuffer \<or> rx_test type_dss_rx pdfBuffer \<or>
             list_ex (stream_hit inflate) (take 50 (stream_objects pdfBuffer)) \<or>
             rx_test type_vri_rx pdfBuffer)"
  by (auto simp: checkPdfSignature_def hasLTV_def Let_def scan_streams_eq)

text \<open>
  A signed document whose only DSS marker is inside a FlateDecode stream. \<open>flate_dss\<close> is
  the zlib stream of the ten characters \<^verbatim>\<open>/Type /DSS\<close> (deflate at level 9, 18 bytes):
  \<^verbatim>\<open>78 da d3 0f a9 2c 48 55 d0 77 09 0e 06 00 11 2b 03 0b\<close>. Its last byte, the low byte
  of the Adler-32 checksum, is \<^verbatim>\<open>0b\<close>, the vertical tab, which \<^verbatim>\<open>\s\<close> accepts. The
  document holds the stream between \<^verbatim>\<open>stream\<close>, a line feed, and a line feed before
  \<^verbatim>\<open>endstream\<close>, as the format prescribes.
\<close>

definition flate_dss :: buffer where
  "flate_dss =
     [CHR 0x78, CHR 0xDA, CHR 0xD3, CHR 0x0F, CHR 0xA9, CHR 0x2C, CHR 0x48, CHR 0x55, CHR 0xD0,
      CHR 0x77, CHR 0x09, CHR 0x0E, CHR 0x06, CHR 0x00, CHR 0x11, CHR 0x2B, CHR 0x03, CHR 0x0B]"

definition flate_dss_pdf :: buffer where
  "flate_dss_pdf =
     ''/FT /Sig 7 0 obj <</Filter/FlateDecode>>stream'' @ [newline] @ flate_dss @ [newline] @
     ''endstream''"

text \<open>
  Claim C8 says that \<open>hasLTV\<close> is true when the DSS marker is only visible after the
  inflation of a FlateDecode stream. On \<open>flate_dss_pdf\<close> it is false. The stream pattern
  ends in \<^verbatim>\<open>([\s\S]*?)\s*endstream\<close>: the lazy group stops as soon as white space and
  \<^verbatim>\<open>endstream\<close> follow, so the white space at the end of the stream data is left out of
  the group. The content handed to \<^verbatim>\<open>zlib.inflateSync\<close> is the stream without its last
  byte, and \<open>hasLTV\<close> is whatever the inflation of that shortened stream shows, for every
  \<open>inflate\<close>. zlib inflates the whole of \<open>flate_dss\<close> to \<^verbatim>\<open>/Type /DSS\<close> and throws on
  the shortened stream (unexpected end of file); the exception is caught, the stream
  skipped, and the detector answers \<open>hasLTV = false\<close>.
\<close>

theorem checkPdfSignature_truncates_flate_stream:
  "hasSig flate_dss_pdf \<and>
   stream_objects flate_dss_pdf = [(''7 0 obj <</Filter/FlateDecode>>'', butlast flate_dss)] \<and>
   checkPdfSignature inflate flate_dss_pdf =
     Signed (case inflate (butlast flate_dss) of Some d \<Rightarrow> dss_marker d | None \<Rightarrow> False) \<and>
   checkPdfSignature (\<lambda>b. if b = flate_dss then Some ''/Type /DSS'' else None) flate_dss_pdf =
     Signed False"
proof -
  have sig: "hasSig flate_dss_pdf" by code_simp
  have objs: "stream_objects flate_dss_pdf =
      [(''7 0 obj <</Filter/FlateDecode>>'', butlast flate_dss)]"
    by code_simp
  have plain: "\<not> rx_test dss_ref_rx flate_dss_pdf \<and> \<not> rx_test type_dss_rx flate_dss_pdf \<and>
      \<not> rx_test type_vri_rx flate_dss_pdf"
    by code_simp
  have flate: "rx_test flate_rx ''7 0 obj <</Filter/FlateDecode>>''" by code_simp
  have short: "butlast flate_dss \<noteq> flate_dss" by code_simp
  have general: "checkPdfSignature f flate_dss_pdf =
      Signed (case f (butlast flate_dss) of Some d \<Rightarrow> dss_marker d | None \<Rightarrow> False)" for f
    using checkPdfSignature_sequence[OF sig, of f] plain flate
    by (simp add: objs stream_hit_def)
  have "checkPdfSignature (\<lambda>b. if b = flate_dss then Some ''/Type /DSS'' else None) flate_dss_pdf =
      Signed False"
    unfolding general using short by simp
  with sig objs general show ?thesis by blast
qed

text \<open>A stream whose last byte is not white space is handed over whole.\<close>

lemma stream_objects_whole_stream:
  "stream_objects (''7 0 obj <</Filter/FlateDecode>>stream'' @ [newline] @ ''x'' @ [CHR 0x9C] @
      [newline] @ ''endstream'') =
   [(''7 0 obj <</Filter/FlateDecode>>'', ''x'' @ [CHR 0x9C])]"
  by code_simp

subsection \<open>String unescaping\<close>

text \<open>
  Claim C9 says that backslash, backslash, \<^verbatim>\<open>n\<close> decodes to a backslash followed by
  \<^verbatim>\<open>n\<close>. The code first turns the two backslashes into one and then, in the next
  replacement, reads that backslash and the \<^verbatim>\<open>n\<close> as the escape for a newline: the
  result is the single newline character.
\<close>

theorem decodePdfString_escaped_backslash:
  "decodePdfString [backslash, backslash, CHR ''n''] = [newline] \<and>
   decodePdfString [backslash, backslash, CHR ''n''] \<noteq> [backslash, CHR ''n'']"
  by code_simp

text \<open>Each escape alone is decoded as the format prescribes.\<close>

lemma decodePdfString_single_escapes:
  "decodePdfString ([backslash] @ ''101'') = ''A''"
  "decodePdfString [backslash, CHR ''(''] = ''(''"
  "decodePdfString [backslash, CHR '')''] = '')''"
  "decodePdfString [backslash, backslash] = [backslash]"
  "decodePdfString [backslash, CHR ''n''] = [newline]"
  "decodePdfString [backslash, CHR ''r''] = [carriage_return]"
  "decodePdfString [backslash, CHR ''t''] = [tab]"
  by code_simp+

section \<open>The timestamp step\<close>

subsection \<open>The length of the PDF\<close>


lemma length_toString_hex: "length (toString_hex b) = 2 * length b"
  by (induction b) (simp_all add: toString_hex_def hex_of_byte_def)

lemma length_padEnd: "length s \<le> n \<Longrightarrow> length (padEnd s n c) = n"
  by (simp add: padEnd_def)

lemma padEnd_long: "n \<le> length s \<Longrightarrow> padEnd s n c = s"
  by (simp add: padEnd_def)

lemma take_eq_imp_le: "take (length pat) xs = pat \<Longrightarrow> length pat \<le> length xs"
proof -
  assume "take (length pat) xs = pat"
  then have "length (take (length pat) xs) = length pat" by simp
  then show ?thesis by simp
qed

lemma length_replace_first:
  "length rep = length pat \<Longrightarrow> length (replace_first pat rep s) = length s"
proof (induction s)
  case Nil
  then show ?case by auto
next
  case (Cons c cs)
  show ?case
  proof (cases "take (length pat) (c # cs) = pat")
    case True
    from take_eq_imp_le[OF True] Cons.prems True show ?thesis by simp
  next
    case False
    with Cons show ?thesis by simp
  qed
qed

lemma length_replaceSignatureInPDF:
  "length (replaceSignatureInPDF pdfBuffer oldSignatureHex newSignature) = length pdfBuffer"
  by (simp add: replaceSignatureInPDF_def Let_def length_replace_first length_padEnd)

lemma replaceSignatureInPDF_too_long:
  "length oldSignatureHex < length (toString_hex newSignature) \<Longrightarrow>
   replaceSignatureInPDF pdfBuffer oldSignatureHex newSignature = pdfBuffer"
  by (simp add: replaceSignatureInPDF_def Let_def)

lemma length_addTimestampToPDF:
  "length (fst (addTimestampToPDF R net signedPdf tsaUrl log)) = length signedPdf"
  by (simp add: addTimestampToPDF_def Let_def length_replaceSignatureInPDF
      split: option.splits prod.splits sum.splits)


text \<open>
  Claim C1 holds for the timestamp helper (the three lemmas above): the new hexadecimal
  text is padded to the old width, a longer one is refused, and \<open>addTimestampToPDF\<close>
  returns a buffer of the length it was given. The copy of \<^verbatim>\<open>replaceSignatureInPDF\<close>
  inside the serverless signing function has lost the length test: \<^verbatim>\<open>padEnd\<close> leaves a
  longer text as it is, and the replacement makes the PDF longer. Here a two-byte slot
  receives a three-byte signature and the buffer grows by two characters, where the
  helper returns it unchanged.
\<close>

theorem replaceSignatureInPDF_inline_grows:
  "replaceSignatureInPDF_inline ''/Contents <0000>'' ''0000'' ''abc'' = ''/Contents <616263>'' \<and>
   length (replaceSignatureInPDF_inline ''/Contents <0000>'' ''0000'' ''abc'') =
     length ''/Contents <0000>'' + 2 \<and>
   replaceSignatureInPDF ''/Contents <0000>'' ''0000'' ''abc'' = ''/Contents <0000>''"
  by code_simp

subsection \<open>The alternate timestamp server\<close>

lemma alternate_neq: "''http://timestamp.digicert.com'' \<noteq> ''http://freetsa.org/tsr''"
  by simp

lemma timestamp_attempt_log:
  "toDer R (timestampReq R d) = Some req \<Longrightarrow>
   snd (timestamp_attempt R net d url log) = log @ [(url, req)]"
  by (simp add: timestamp_attempt_def post_def split: http_result.splits)

lemma timestamp_attempt_fails:
  "toDer R (timestampReq R d) = Some req \<Longrightarrow> post_fails (net log (url, req)) \<Longrightarrow>
   \<exists>m. timestamp_attempt R net d url log = (Inl m, log @ [(url, req)])"
  by (auto simp: timestamp_attempt_def post_def post_fails_def split: http_result.splits)

lemma timestamp_attempt_succeeds:
  "toDer R (timestampReq R d) = Some req \<Longrightarrow> net log (url, req) = Response 200 body \<Longrightarrow>
   timestamp_attempt R net d url log = (Inr (token_of_response R body), log @ [(url, req)])"
  by (simp add: timestamp_attempt_def post_def)

lemma requestTimestamp_alternate:
  "requestTimestamp R net d ''http://timestamp.digicert.com'' log =
     timestamp_attempt R net d ''http://timestamp.digicert.com'' log"
  by (subst requestTimestamp.simps) (simp split: prod.splits sum.splits)

lemma requestTimestamp_primary_fails:
  assumes req: "toDer R (timestampReq R d) = Some req"
    and fails: "post_fails (net log (''http://freetsa.org/tsr'', req))"
  shows "snd (requestTimestamp R net d ''http://freetsa.org/tsr'' log) =
           log @ [(''http://freetsa.org/tsr'', req), (''http://timestamp.digicert.com'', req)]"
    and "post_fails (net (log @ [(''http://freetsa.org/tsr'', req)]) (''http://timestamp.digicert.com'', req)) \<Longrightarrow>
         \<exists>m. fst (requestTimestamp R net d ''http://freetsa.org/tsr'' log) = Inl m"
proof -
  from timestamp_attempt_fails[where net = net and log = log, OF req fails] obtain m where
    m: "timestamp_attempt R net d ''http://freetsa.org/tsr'' log =
          (Inl m, log @ [(''http://freetsa.org/tsr'', req)])" by blast
  let ?log' = "log @ [(''http://freetsa.org/tsr'', req)]"
  have unfold: "requestTimestamp R net d ''http://freetsa.org/tsr'' log =
      (case timestamp_attempt R net d ''http://timestamp.digicert.com'' ?log' of
         (Inr tokenBuffer, log'') \<Rightarrow> (Inr tokenBuffer, log'')
       | (Inl retryErr, log'') \<Rightarrow> (Inl (''All TSA servers unavailable: '' @ m), log''))"
    by (subst requestTimestamp.simps) (simp add: m requestTimestamp_alternate)
  from timestamp_attempt_log[OF req, of net "''http://timestamp.digicert.com''" ?log']
  show "snd (requestTimestamp R net d ''http://freetsa.org/tsr'' log) =
           log @ [(''http://freetsa.org/tsr'', req), (''http://timestamp.digicert.com'', req)]"
    unfolding unfold by (auto split: prod.splits sum.splits)
  assume "post_fails (net ?log' (''http://timestamp.digicert.com'', req))"
  from timestamp_attempt_fails[where net = net and log = ?log', OF req this] obtain m' where
    "timestamp_attempt R net d ''http://timestamp.digicert.com'' ?log' =
       (Inl m', ?log' @ [(''http://timestamp.digicert.com'', req)])" by blast
  then show "\<exists>m. fst (requestTimestamp R net d ''http://freetsa.org/tsr'' log) = Inl m"
    unfolding unfold by simp
qed


lemma extractSignatureFromPDF_Some:
  "rx_test byteRange_rx pdfBuffer \<Longrightarrow> rx_test contents_rx pdfBuffer \<Longrightarrow>
   \<exists>ex. extractSignatureFromPDF pdfBuffer = Some ex"
  unfolding rx_test_def extractSignatureFromPDF_def by (auto split: option.splits)

text \<open>
  Claim C2. When the signature can be extracted and the POST to the primary URL fails
  (rejected, or a status other than 200), the requests of the timestamp step are exactly
  two: the one to the primary URL and one to the alternate URL. When that one fails as
  well, the step returns the signed buffer it was given; its \<^verbatim>\<open>/Contents\<close>, and with it
  the SignerInfo, is as it was.
\<close>

theorem addTimestampToPDF_tsa_failover:
  assumes ex: "extractSignatureFromPDF signedPdf = Some ex"
    and req: "toDer R (timestampReq R (signature ex)) = Some req"
    and fails: "post_fails (net log (''http://freetsa.org/tsr'', req))"
  shows "snd (addTimestampToPDF R net signedPdf ''http://freetsa.org/tsr'' log) =
           log @ [(''http://freetsa.org/tsr'', req), (''http://timestamp.digicert.com'', req)] \<and>
         (post_fails (net (log @ [(''http://freetsa.org/tsr'', req)]) (''http://timestamp.digicert.com'', req)) \<longrightarrow>
            fst (addTimestampToPDF R net signedPdf ''http://freetsa.org/tsr'' log) = signedPdf)"
proof -
  note r = requestTimestamp_primary_fails[where net = net and log = log, OF req fails]
  have "snd (addTimestampToPDF R net signedPdf ''http://freetsa.org/tsr'' log) =
          snd (requestTimestamp R net (signature ex) ''http://freetsa.org/tsr'' log)"
    by (simp add: addTimestampToPDF_def ex Let_def split: prod.splits sum.splits)
  moreover have "fst (addTimestampToPDF R net signedPdf ''http://freetsa.org/tsr'' log) = signedPdf"
    if "post_fails (net (log @ [(''http://freetsa.org/tsr'', req)]) (''http://timestamp.digicert.com'', req))"
  proof -
    from r(2)[OF that] obtain m where
      "fst (requestTimestamp R net (signature ex) ''http://freetsa.org/tsr'' log) = Inl m" by blast
    then show ?thesis
      by (auto simp: addTimestampToPDF_def ex Let_def split: prod.splits sum.splits)
  qed
  ultimately show ?thesis using r(1) by simp
qed


text \<open>The theorem with no server in reach: two requests, and the buffer comes back.\<close>

theorem addTimestampToPDF_tsa_failover_witness:
  "addTimestampToPDF stub_runtime unreachable ''/ByteRange [0 9 13 5] /Contents <00>''
     ''http://freetsa.org/tsr'' [] =
   (''/ByteRange [0 9 13 5] /Contents <00>'',
    [(''http://freetsa.org/tsr'', ''DER''), (''http://timestamp.digicert.com'', ''DER'')])"
proof -
  let ?pdf = "''/ByteRange [0 9 13 5] /Contents <00>''"
  have "rx_test byteRange_rx ?pdf" "rx_test contents_rx ?pdf" by code_simp+
  from extractSignatureFromPDF_Some[OF this]
  obtain ex where ex: "extractSignatureFromPDF ?pdf = Some ex" by blast
  have req: "toDer stub_runtime (timestampReq stub_runtime (signature ex)) = Some ''DER''"
    by (simp add: stub_runtime_def)
  have f1: "post_fails (unreachable [] (''http://freetsa.org/tsr'', ''DER''))"
    by (simp add: unreachable_def post_fails_def)
  have f2: "post_fails (unreachable ([] @ [(''http://freetsa.org/tsr'', ''DER'')])
      (''http://timestamp.digicert.com'', ''DER''))"
    by (simp add: unreachable_def post_fails_def)
  from addTimestampToPDF_tsa_failover[where net = unreachable and log = "[]", OF ex req f1] f2
  show ?thesis by (simp add: prod_eq_iff)
qed

section \<open>The validation step\<close>

subsection \<open>Certificates and the OCSP request\<close>

text \<open>
  What it means that a certificate carries an Authority Information Access extension
  (\<^verbatim>\<open>1.3.6.1.5.5.7.1.1\<close>) with an OCSP access method (\<^verbatim>\<open>1.3.6.1.5.5.7.48.1\<close>) whose
  location is \<open>url\<close>: the extension value decodes to a sequence with an access description
  made of that identifier and the location.
\<close>

definition is_ocsp_access :: "runtime \<Rightarrow> string \<Rightarrow> asn1 \<Rightarrow> bool" where
  "is_ocsp_access R url item =
     (case item of
        Constructed c t (Primitive c' t' oidBytes # Primitive c'' t'' u # rest) \<Rightarrow>
          derToOid R oidBytes = ''1.3.6.1.5.5.7.48.1'' \<and> u = url
      | _ \<Rightarrow> False)"





lemma is_ocsp_access_simps [simp]:
  "is_ocsp_access R url (Primitive c t v) = False"
  "is_ocsp_access R url (Constructed c t []) = False"
  "is_ocsp_access R url (Constructed c t (Constructed c' t' xs # rest)) = False"
  "is_ocsp_access R url (Constructed c t [Primitive c' t' oidBytes]) = False"
  "is_ocsp_access R url (Constructed c t (Primitive c' t' oidBytes # Constructed c'' t'' xs # rest)) = False"
  "is_ocsp_access R url (Constructed c t (Primitive c' t' oidBytes # Primitive c'' t'' u # rest)) =
     (derToOid R oidBytes = ''1.3.6.1.5.5.7.48.1'' \<and> u = url)"
  by (simp_all add: is_ocsp_access_def)









subsection \<open>A failed embedding\<close>

lemma rx_replace_first_no_match: "\<not> rx_test r s \<Longrightarrow> rx_replace_first r rep s = s"
  by (cases "rx_exec r s") (simp_all add: rx_replace_first_def rx_test_def)

lemma embedDSS_body_no_catalog:
  "\<not> rx_test catalog_rx pdfBuffer \<Longrightarrow> \<exists>failure. embedDSS_body R pdfBuffer ocspResponses certs = Inl failure"
  by (auto simp: embedDSS_body_def rx_replace_first_no_match Let_def split: sum.splits option.splits prod.splits)

lemma those_None: "None \<in> set xs \<Longrightarrow> those xs = None"
  by (induction xs) (auto split: option.splits)

lemma embedDSS_body_bad_certificate:
  "c \<in> set certs \<Longrightarrow> certificateToDer R c = None \<Longrightarrow>
   \<exists>failure. embedDSS_body R pdfBuffer ocspResponses certs = Inl failure"
proof -
  assume "c \<in> set certs" "certificateToDer R c = None"
  then have "None \<in> set (map (certificateToDer R) certs)" by force
  then have "those (map (certificateToDer R) certs) = None" by (rule those_None)
  then show ?thesis by (auto simp: embedDSS_body_def split: sum.splits)
qed

lemma occurs_char_f:
  assumes "occurs_at f m s i" "i \<le> k" "k < i + length m"
  shows "f (s ! k) = f (m ! (k - i))"
proof -
  from assms(2,3) have "k - i < length m" by simp
  with assms(1) have "f (s ! (i + (k - i))) = f (m ! (k - i))"
    unfolding occurs_at_def by blast
  with assms(2) show ?thesis by simp
qed

lemma take_occurs: "take (length m) s = m \<Longrightarrow> occurs_at (\<lambda>c. c) m s 0"
proof -
  assume t: "take (length m) s = m"
  then have "length (take (length m) s) = length m" by simp
  then have l: "length m \<le> length s" by simp
  have "s ! j = m ! j" if "j < length m" for j
  proof -
    from that have "take (length m) s ! j = s ! j" by simp
    with t show ?thesis by simp
  qed
  with l show ?thesis by (simp add: occurs_at_def)
qed

lemma occurs_Cons: "occurs_at f m s i \<Longrightarrow> occurs_at f m (c # s) (Suc i)"
  by (simp add: occurs_at_def)

lemma lastIndexOf_occurs: "lastIndexOf pat s = Some i \<Longrightarrow> occurs_at (\<lambda>c. c) pat s i"
proof (induction s arbitrary: i)
  case Nil
  then show ?case by (simp add: occurs_at_def split: if_splits)
next
  case (Cons c cs)
  show ?case
  proof (cases "lastIndexOf pat cs")
    case None
    with Cons.prems have "take (length pat) (c # cs) = pat" "i = 0"
      by (simp_all split: if_splits)
    with take_occurs[of pat "c # cs"] show ?thesis by simp
  next
    case (Some j)
    with Cons.prems have "i = Suc j" by simp
    with Cons.IH[OF Some] show ?thesis by (simp add: occurs_Cons)
  qed
qed

lemma occurs_exact_split:
  assumes "occurs_at (\<lambda>c. c) m s i"
  shows "\<exists>u v. s = u @ m @ v"
proof -
  from assms have l: "i + length m \<le> length s" and c: "\<And>j. j < length m \<Longrightarrow> s ! (i + j) = m ! j"
    by (simp_all add: occurs_at_def)
  have "take (length m) (drop i s) = m"
    using l c by (intro nth_equalityI) simp_all
  then have "s = take i s @ m @ drop (length m) (drop i s)"
    by (metis append_take_drop_id)
  then show ?thesis by blast
qed

lemma digit_char_digit: "k < 10 \<Longrightarrow> is_digit (digit_char k)"
  by (simp only: digit_char_def is_digit_def) (rule nth_mem, simp)

lemma dec_digits: "list_all is_digit (dec n)"
proof (induction n rule: dec.induct)
  case (1 n)
  show ?case
  proof (cases "n < 10")
    case True
    then show ?thesis by (subst dec.simps) (simp add: digit_char_digit)
  next
    case False
    with 1 have "list_all is_digit (dec (n div 10))" by simp
    with False show ?thesis by (subst dec.simps) (simp add: digit_char_digit)
  qed
qed

lemma String_of_no_x:
  assumes "\<forall>n. CHR ''x'' \<notin> set (bigString R n)"
  shows "CHR ''x'' \<notin> set (String_of R n)"
proof (cases n)
  case (Fin k)
  have "\<not> is_digit CHR ''x''" by (simp add: is_digit_def)
  with dec_digits[of k] have "CHR ''x'' \<notin> set (dec k)" by (auto simp: list_all_iff)
  with assms Fin show ?thesis by (simp add: String_of_def)
next
  case Infinity
  then show ?thesis by (simp add: String_of_def)
qed

lemma xref_apart:
  assumes occ: "occurs_at (\<lambda>c. c) ''xref'' (P @ (CHR ''/'' # rep) @ T) i"
    and x: "CHR ''x'' \<notin> set rep"
  shows "i + length ''xref'' \<le> length P \<or> length P + length (CHR ''/'' # rep) \<le> i"
proof (rule ccontr)
  assume "\<not> ?thesis"
  then have o: "length P < i + 4" "i < length P + Suc (length rep)" by simp_all
  show False
  proof (cases "i < length P")
    case True
    with o have k: "i \<le> length P" "length P < i + length ''xref''" by simp_all
    from occurs_char_f[OF occ k] have "''xref'' ! (length P - i) = CHR ''/''"
      by (simp add: nth_append)
    moreover from True o have "length P - i = 1 \<or> length P - i = 2 \<or> length P - i = 3" by linarith
    ultimately show False by auto
  next
    case False
    define d where "d = i - length P"
    from False o have d: "i = length P + d" "d < Suc (length rep)" by (simp_all add: d_def)
    have "(P @ (CHR ''/'' # rep) @ T) ! (length P + d) = ((CHR ''/'' # rep) @ T) ! d"
      by (simp only: nth_append_length_plus)
    moreover from d have "((CHR ''/'' # rep) @ T) ! d = (CHR ''/'' # rep) ! d"
      by (cases d) (simp_all add: nth_append)
    ultimately have "(P @ (CHR ''/'' # rep) @ T) ! i = (CHR ''/'' # rep) ! d" using d by simp
    with d have mem: "(P @ (CHR ''/'' # rep) @ T) ! i \<in> set (CHR ''/'' # rep)"
      by (metis length_Cons nth_mem)
    from occurs_char_f[OF occ, of i] have "(P @ (CHR ''/'' # rep) @ T) ! i = CHR ''x''" by simp
    with mem x show False by simp
  qed
qed

lemma xref_before_patch:
  assumes occ: "occurs_at (\<lambda>c. c) ''xref'' (rx_replace_first catalog_rx (CHR ''/'' # rep) s) i"
    and x: "CHR ''x'' \<notin> set rep"
  shows "\<exists>u v. s = u @ ''xref'' @ v"
proof (cases "rx_exec catalog_rx s")
  case None
  with occ have "occurs_at (\<lambda>c. c) ''xref'' s i" by (simp add: rx_replace_first_def)
  then show ?thesis by (rule occurs_exact_split)
next
  case (Some y)
  then obtain a ms t where y: "rx_exec catalog_rx s = Some (a, ms, t)" by (cases y) auto
  from catalog_match[OF y] obtain P w0 where
    s: "s = P @ (''/Type'' @ w0 @ ''/Catalog'') @ t"
    and a: "a = (''/Type'' @ w0 @ ''/Catalog'') @ t" by blast
  have "take (length s - length a) s = P" by (simp add: s a)
  with y have r: "rx_replace_first catalog_rx (CHR ''/'' # rep) s = P @ (CHR ''/'' # rep) @ t"
    by (simp add: rx_replace_first_def)
  from occ have occ': "occurs_at (\<lambda>c. c) ''xref'' (P @ (CHR ''/'' # rep) @ t) i"
    unfolding r .
  from xref_apart[OF occ' x] have "\<exists>k. occurs_at (\<lambda>c. c) ''xref'' (P @ (''/Type'' @ w0 @ ''/Catalog'') @ t) k"
  proof
    assume "i + length ''xref'' \<le> length P"
    from occurs_before[OF occ' this] show ?thesis by blast
  next
    assume "length P + length (CHR ''/'' # rep) \<le> i"
    from occurs_after[OF occ' this] show ?thesis by blast
  qed
  then show ?thesis unfolding s[symmetric] using occurs_exact_split by blast
qed

lemma embedDSS_body_no_xref:
  assumes no: "\<not> (\<exists>u v. pdfBuffer = u @ ''xref'' @ v)"
    and big: "\<forall>n. CHR ''x'' \<notin> set (bigString R n)"
  shows "\<exists>failure. embedDSS_body R pdfBuffer ocspResponses certs = Inl failure"
proof (cases "embedDSS_body R pdfBuffer ocspResponses certs")
  case (Inl failure)
  then show ?thesis by blast
next
  case (Inr newPdf)
  then obtain dssNum i where
    x: "lastIndexOf ''xref''
          (rx_replace_first catalog_rx (''/Type /Catalog /DSS '' @ String_of R dssNum @ '' 0 R'')
             pdfBuffer) = Some i"
    by (auto simp: embedDSS_body_def Let_def split: sum.splits option.splits prod.splits if_splits)
  have e: "''/Type /Catalog /DSS '' @ String_of R dssNum @ '' 0 R'' =
      CHR ''/'' # (''Type /Catalog /DSS '' @ String_of R dssNum @ '' 0 R'')" by simp
  from String_of_no_x[OF big, of dssNum]
  have nx: "CHR ''x'' \<notin> set (''Type /Catalog /DSS '' @ String_of R dssNum @ '' 0 R'')" by simp
  from lastIndexOf_occurs[OF x] have
    "occurs_at (\<lambda>c. c) ''xref''
       (rx_replace_first catalog_rx (CHR ''/'' # (''Type /Catalog /DSS '' @ String_of R dssNum @ '' 0 R''))
          pdfBuffer) i"
    unfolding e .
  from xref_before_patch[OF this nx] no show ?thesis by blast
qed

lemma catalog_rx_test:
  "rx_test catalog_rx s \<Longrightarrow>
   \<exists>u w v. s = u @ ''/Type'' @ w @ ''/Catalog'' @ v \<and> list_all is_space w"
proof -
  assume "rx_test catalog_rx s"
  then obtain a ms t where "rx_exec catalog_rx s = Some (a, ms, t)"
    by (cases "rx_exec catalog_rx s") (auto simp: rx_test_def)
  from catalog_match[OF this] obtain P w0 where "list_all is_space w0"
    "s = P @ (''/Type'' @ w0 @ ''/Catalog'') @ t" by blast
  then have "s = P @ ''/Type'' @ w0 @ ''/Catalog'' @ t \<and> list_all is_space w0" by simp
  then show ?thesis by blast
qed

text \<open>
  Claim C3. Whenever the \<^verbatim>\<open>try\<close> block of \<^verbatim>\<open>embedDSS\<close> does not come to its end, for
  whatever reason, the function returns the buffer it was given. In particular it does so
  when the buffer has no \<^verbatim>\<open>xref\<close> keyword (the printing of a number never writes the
  letter \<^verbatim>\<open>x\<close>), when the buffer has no \<^verbatim>\<open>/Type /Catalog\<close> to patch, and when a
  certificate cannot be encoded.
\<close>

theorem embedDSS_failure_keeps_buffer:
  "(embedDSS_body R pdfBuffer ocspResponses certs = Inl failure \<longrightarrow>
      embedDSS R pdfBuffer ocspResponses certs = pdfBuffer) \<and>
   (\<not> (\<exists>u v. pdfBuffer = u @ ''xref'' @ v) \<and> (\<forall>n. CHR ''x'' \<notin> set (bigString R n)) \<longrightarrow>
      embedDSS R pdfBuffer ocspResponses certs = pdfBuffer) \<and>
   (\<not> (\<exists>u w v. pdfBuffer = u @ ''/Type'' @ w @ ''/Catalog'' @ v \<and> list_all is_space w) \<longrightarrow>
      embedDSS R pdfBuffer ocspResponses certs = pdfBuffer) \<and>
   ((\<exists>c \<in> set certs. certificateToDer R c = None) \<longrightarrow>
      embedDSS R pdfBuffer ocspResponses certs = pdfBuffer)"
proof -
  have keep: "embedDSS R pdfBuffer ocspResponses certs = pdfBuffer"
    if "\<exists>f. embedDSS_body R pdfBuffer ocspResponses certs = Inl f"
    using that by (auto simp: embedDSS_def)
  have a: "embedDSS_body R pdfBuffer ocspResponses certs = Inl failure \<Longrightarrow>
      embedDSS R pdfBuffer ocspResponses certs = pdfBuffer"
    using keep by blast
  have b: "embedDSS R pdfBuffer ocspResponses certs = pdfBuffer"
    if "\<not> (\<exists>u v. pdfBuffer = u @ ''xref'' @ v)" "\<forall>n. CHR ''x'' \<notin> set (bigString R n)"
    using embedDSS_body_no_xref[OF that] by (rule keep)
  have c: "embedDSS R pdfBuffer ocspResponses certs = pdfBuffer"
    if "\<not> (\<exists>u w v. pdfBuffer = u @ ''/Type'' @ w @ ''/Catalog'' @ v \<and> list_all is_space w)"
  proof -
    from that catalog_rx_test[of pdfBuffer] have "\<not> rx_test catalog_rx pdfBuffer" by blast
    from embedDSS_body_no_catalog[OF this] show ?thesis by (rule keep)
  qed
  have d: "embedDSS R pdfBuffer ocspResponses certs = pdfBuffer"
    if "\<exists>c \<in> set certs. certificateToDer R c = None"
    using that embedDSS_body_bad_certificate[of _ certs R pdfBuffer ocspResponses] keep by blast
  from a b c d show ?thesis by blast
qed

text \<open>
  The theorem at a buffer without Catalog and without \<^verbatim>\<open>xref\<close>, with a certificate
  whose encoding throws.
\<close>

theorem embedDSS_failure_keeps_buffer_witness:
  "embedDSS (stub_runtime\<lparr>certificateToDer := (\<lambda>c. None)\<rparr>) ''%PDF-1.7'' [] [example_certificate] =
     ''%PDF-1.7'' \<and>
   embedDSS_body (stub_runtime\<lparr>certificateToDer := (\<lambda>c. None)\<rparr>) ''%PDF-1.7'' []
     [example_certificate] = Inl Certificate_error"
proof -
  let ?R = "stub_runtime\<lparr>certificateToDer := (\<lambda>c. None)\<rparr>"
  have body: "embedDSS_body ?R ''%PDF-1.7'' [] [example_certificate] = Inl Certificate_error"
    by code_simp
  have nx: "\<not> (\<exists>u v. ''%PDF-1.7'' = u @ ''xref'' @ v)"
  proof
    assume "\<exists>u v. ''%PDF-1.7'' = u @ ''xref'' @ v"
    then obtain u v where "''%PDF-1.7'' = u @ ''xref'' @ v" by blast
    then have "set ''%PDF-1.7'' = set (u @ ''xref'' @ v)" by (rule arg_cong)
    then have "CHR ''x'' \<in> set ''%PDF-1.7''" by simp
    then show False by simp
  qed
  have big: "\<forall>n. CHR ''x'' \<notin> set (bigString ?R n)" by (simp add: stub_runtime_def)
  have nc: "\<not> (\<exists>u w v. ''%PDF-1.7'' = u @ ''/Type'' @ w @ ''/Catalog'' @ v \<and> list_all is_space w)"
  proof
    assume "\<exists>u w v. ''%PDF-1.7'' = u @ ''/Type'' @ w @ ''/Catalog'' @ v \<and> list_all is_space w"
    then obtain u w v where "''%PDF-1.7'' = u @ ''/Type'' @ w @ ''/Catalog'' @ v" by blast
    then have "set ''%PDF-1.7'' = set (u @ ''/Type'' @ w @ ''/Catalog'' @ v)" by (rule arg_cong)
    then have "CHR ''/'' \<in> set ''%PDF-1.7''" by simp
    then show False by simp
  qed
  have bad: "\<exists>c \<in> set [example_certificate]. certificateToDer ?R c = None" by simp
  from embedDSS_failure_keeps_buffer[of ?R "''%PDF-1.7''" "[]" "[example_certificate]" Certificate_error]
    body nx big nc bad
  have "embedDSS ?R ''%PDF-1.7'' [] [example_certificate] = ''%PDF-1.7''" by blast
  with body show ?thesis by blast
qed

section \<open>Credentials\<close>

lemma parseP12Certificate_cases:
  "succeeded (parseP12Certificate R buf pw) \<Longrightarrow>
   \<exists>a b c d e cert p12. parseP12Certificate R buf pw =
     [(''success'', JBool True), (''commonName'', JString a), (''email'', JString b),
      (''organization'', JString c), (''validFrom'', JString d), (''validTo'', JString e),
      (''cert'', JCertificate cert), (''p12'', JPkcs12 p12)]"
  by (auto simp: parseP12Certificate_def succeeded_def split: option.splits sum.splits list.splits)

text \<open>
  Claim C10. When the container was parsed, the answer of the credential-inspection
  endpoint is \<^verbatim>\<open>200\<close> with exactly the properties \<^verbatim>\<open>success\<close>, \<^verbatim>\<open>commonName\<close>,
  \<^verbatim>\<open>email\<close>, \<^verbatim>\<open>organization\<close>, \<^verbatim>\<open>validFrom\<close>, \<^verbatim>\<open>validTo\<close>; no value of it is the
  certificate object or the decrypted container.
\<close>

theorem parse_certificate_response_fields:
  "succeeded (parseP12Certificate R buf pw) \<Longrightarrow>
   \<exists>body. parse_certificate_endpoint R (Some buf) pw = Json 200 body \<and>
     map fst body = [''success'', ''commonName'', ''email'', ''organization'', ''validFrom'', ''validTo''] \<and>
     list_all (\<lambda>p. \<not> is_secret (snd p)) body"
proof -
  assume s: "succeeded (parseP12Certificate R buf pw)"
  from parseP12Certificate_cases[OF s] obtain a b c d e cert p12 where
    r: "parseP12Certificate R buf pw =
     [(''success'', JBool True), (''commonName'', JString a), (''email'', JString b),
      (''organization'', JString c), (''validFrom'', JString d), (''validTo'', JString e),
      (''cert'', JCertificate cert), (''p12'', JPkcs12 p12)]" by blast
  have "parse_certificate_endpoint R (Some buf) pw =
      Json 200 [(''success'', JBool True), (''commonName'', JString a), (''email'', JString b),
      (''organization'', JString c), (''validFrom'', JString d), (''validTo'', JString e)]"
    using s by (simp add: parse_certificate_endpoint_def Let_def r)
  then show ?thesis by (simp add: is_secret_def)
qed

text \<open>The theorem at a container that opens: the six properties and nothing else.\<close>

theorem parse_certificate_response_fields_witness:
  "parse_certificate_endpoint example_runtime (Some ''p12 bytes'') ''secret'' =
     Json 200 [(''success'', JBool True), (''commonName'', JString ''Test''), (''email'', JString []),
       (''organization'', JString []), (''validFrom'', JString ''2025-01-01''),
       (''validTo'', JString ''2026-01-01'')]"
proof -
  have r: "parseP12Certificate example_runtime ''p12 bytes'' ''secret'' =
      [(''success'', JBool True), (''commonName'', JString ''Test''), (''email'', JString []),
       (''organization'', JString []), (''validFrom'', JString ''2025-01-01''),
       (''validTo'', JString ''2026-01-01''), (''cert'', JCertificate example_certificate),
       (''p12'', JPkcs12 \<lparr>certBags = [example_certificate], privateKey = ''key''\<rparr>)]"
    by (simp add: parseP12Certificate_def example_runtime_def stub_runtime_def or_else_def
        example_certificate_def)
  then have s: "succeeded (parseP12Certificate example_runtime ''p12 bytes'' ''secret'')"
    by (simp add: succeeded_def)
  from parse_certificate_response_fields[OF s] obtain body where
    b: "parse_certificate_endpoint example_runtime (Some ''p12 bytes'') ''secret'' = Json 200 body"
    by blast
  moreover have "body = filter (\<lambda>p. fst p \<noteq> ''cert'' \<and> fst p \<noteq> ''p12'')
      (parseP12Certificate example_runtime ''p12 bytes'' ''secret'')"
    using b s by (simp add: parse_certificate_endpoint_def Let_def)
  ultimately show ?thesis by (simp add: r)
qed

text \<open>
  Claim C6. For a buffer that parses as DER, a password the container does not open with
  (\<^verbatim>\<open>pkcs12FromAsn1\<close> throws) gives the failure value \<^verbatim>\<open>{success: false, error}\<close> with the
  message of the error; \<open>parseP12Certificate\<close> returns on every input. The signing
  endpoint then answers \<^verbatim>\<open>500 {error}\<close> and makes no request and no PDF.
\<close>

theorem wrong_password_structured_failure:
  assumes der: "fromDer R p12Buffer = Some p12Asn1"
    and bad: "pkcs12FromAsn1 R p12Asn1 pw = Inl message"
  shows "parseP12Certificate R p12Buffer pw = [(''success'', JBool False), (''error'', JString message)] \<and>
         (pdf_upload rq = Some pdfBuffer \<and> certificate_upload rq = Some p12Buffer \<and> password rq = pw \<longrightarrow>
            sign_pdf_endpoint R net rq log =
              (Json 500 [(''error'', JString (''Invalid certificate or password: '' @ message))], log))"
proof -
  have p: "parseP12Certificate R p12Buffer pw = [(''success'', JBool False), (''error'', JString message)]"
    by (simp add: parseP12Certificate_def der bad)
  then have "\<not> succeeded (parseP12Certificate R p12Buffer pw)"
    and "error_of (parseP12Certificate R p12Buffer pw) = message"
    by (simp_all add: succeeded_def error_of_def)
  then show ?thesis using p
    by (auto simp: sign_pdf_endpoint_def Let_def)
qed

text \<open>The theorem at the example container with a wrong password.\<close>

theorem wrong_password_structured_failure_witness:
  "parseP12Certificate example_runtime ''p12 bytes'' ''guess'' =
     [(''success'', JBool False),
      (''error'', JString ''PKCS#12 MAC could not be verified. Invalid password?'')] \<and>
   sign_pdf_endpoint example_runtime unreachable
     \<lparr>pdf_upload = Some ''%PDF'', certificate_upload = Some ''p12 bytes'', password = ''guess'',
      reason = [], location = []\<rparr> [] =
     (Json 500 [(''error'', JString
        ''Invalid certificate or password: PKCS#12 MAC could not be verified. Invalid password?'')], [])"
proof -
  have der: "fromDer example_runtime ''p12 bytes'' = Some (Primitive 0 0 ''p12 bytes'')"
    by (simp add: example_runtime_def)
  have bad: "pkcs12FromAsn1 example_runtime (Primitive 0 0 ''p12 bytes'') ''guess'' =
      Inl ''PKCS#12 MAC could not be verified. Invalid password?''"
    by (simp add: example_runtime_def)
  from wrong_password_structured_failure[OF der bad,
      of "\<lparr>pdf_upload = Some ''%PDF'', certificate_upload = Some ''p12 bytes'', password = ''guess'',
      reason = [], location = []\<rparr>" "''%PDF''" unreachable "[]"]
  show ?thesis by simp
qed

end
